theory Spec2Isabelle
  imports Main "HOL-Library.Sublist"
begin

section \<open>Strings\<close>

text \<open>
  Python strings are modelled as \<^typ>\<open>string\<close>; a \<^typ>\<open>char\<close> stands for the code point
  of the same number (0 to 255). On that range \<open>str.isspace\<close>, which is also what
  \<open>str.split()\<close> and the regular expression class \<open>\s\<close> use, holds for the code points
  9 to 13, 28 to 32, 133 and 160, and \<open>\d\<close> holds for the ten ASCII digits only.
\<close>

definition isspace :: "char \<Rightarrow> bool" where
  "isspace c = (let n = (of_char c :: nat) in
     (9 \<le> n \<and> n \<le> 13) \<or> (28 \<le> n \<and> n \<le> 32) \<or> n = 133 \<or> n = 160)"

definition isdigit :: "char \<Rightarrow> bool" where
  "isdigit c = (let n = (of_char c :: nat) in 48 \<le> n \<and> n \<le> 57)"

text \<open>\<open>str.lower()\<close> on one code point below 256: A to Z, and the accented capitals
  192 to 222 except the multiplication sign 215, move up by 32.\<close>

definition lower_char :: "char \<Rightarrow> char" where
  "lower_char c = (let n = (of_char c :: nat) in
     if (65 \<le> n \<and> n \<le> 90) \<or> (192 \<le> n \<and> n \<le> 222 \<and> n \<noteq> 215)
     then char_of (n + 32) else c)"

definition lower :: "string \<Rightarrow> string" where
  "lower s = map lower_char s"

text \<open>Python's \<open>sub in s\<close> on strings.\<close>

fun str_contains :: "string \<Rightarrow> string \<Rightarrow> bool" where
  "str_contains sub [] = (sub = [])"
| "str_contains sub (c # cs) = (prefix sub (c # cs) \<or> str_contains sub cs)"

text \<open>\<open>text.split()\<close>: the maximal runs of non-whitespace, in order.\<close>

function split_ws :: "string \<Rightarrow> string list" where
  "split_ws s =
     (let s' = dropWhile isspace s
      in if s' = [] then []
         else takeWhile (\<lambda>c. \<not> isspace c) s' # split_ws (dropWhile (\<lambda>c. \<not> isspace c) s'))"
  by pat_completeness auto
termination
proof (relation "measure length", goal_cases)
  case 1
  show ?case by simp
next
  case (2 s s')
  then obtain c cs where s': "s' = c # cs" and c: "\<not> isspace c"
    by (metis dropWhile_eq_Cons_conv list.exhaust)
  have "length (dropWhile (\<lambda>c. \<not> isspace c) s') \<le> length cs"
    using s' c by (simp add: length_dropWhile_le)
  moreover have "length s' \<le> length s"
    using 2 by (simp add: length_dropWhile_le)
  ultimately show ?case using s' by simp
qed

declare split_ws.simps [simp del]

text \<open>\<open>sep.join(words)\<close>.\<close>

fun join :: "string \<Rightarrow> string list \<Rightarrow> string" where
  "join sep [] = []"
| "join sep [w] = w"
| "join sep (w # v # ws) = w @ sep @ join sep (v # ws)"

section \<open>The Field Extractor\<close>

text \<open>The function \<open>_extract\<close> of the source is \<open>extract_text\<close> here.\<close>

record ContractData =
  contract :: "string option"
  amount :: "string option"

text \<open>Case-insensitive match of a literal at the start of the text; the rest of the text
  after the literal when it matches. None of the letters of the two literals has a case
  variant outside ASCII, so comparing lowered characters is what \<open>re.I\<close> does.\<close>

fun match_literal :: "string \<Rightarrow> string \<Rightarrow> string option" where
  "match_literal [] s = Some s"
| "match_literal (p # ps) [] = None"
| "match_literal (p # ps) (c # cs) =
     (if lower_char p = lower_char c then match_literal ps cs else None)"

text \<open>The class \<open>[0-9./-]\<close> and the class \<open>[\d.\,]\<close>.\<close>

definition contract_char :: "char \<Rightarrow> bool" where
  "contract_char c = (isdigit c \<or> c = CHR ''.'' \<or> c = CHR ''/'' \<or> c = CHR ''-'')"

definition amount_char :: "char \<Rightarrow> bool" where
  "amount_char c = (isdigit c \<or> c = CHR ''.'' \<or> c = CHR '','')"

text \<open>\<open>Contrato\s+([0-9./-]{3,})\<close> matched at the start of the text: group 1.
  Whitespace and the class are disjoint and both quantifiers are greedy, so the engine
  never has to backtrack into them.\<close>

definition match_contract :: "string \<Rightarrow> string option" where
  "match_contract s =
     (case match_literal ''Contrato'' s of
        None \<Rightarrow> None
      | Some r \<Rightarrow>
          (let tok = takeWhile contract_char (dropWhile isspace r)
           in if takeWhile isspace r \<noteq> [] \<and> 3 \<le> length tok then Some tok else None))"

text \<open>\<open>Valor\s*total\s*R\$\s*([\d.\,]+)\<close> matched at the start of the text: group 1.\<close>

definition match_amount :: "string \<Rightarrow> string option" where
  "match_amount s =
     (case match_literal ''Valor'' s of
        None \<Rightarrow> None
      | Some r1 \<Rightarrow>
          (case match_literal ''total'' (dropWhile isspace r1) of
             None \<Rightarrow> None
           | Some r2 \<Rightarrow>
               (case match_literal ''R$'' (dropWhile isspace r2) of
                  None \<Rightarrow> None
                | Some r3 \<Rightarrow>
                    (let tok = takeWhile amount_char (dropWhile isspace r3)
                     in if tok \<noteq> [] then Some tok else None))))"

text \<open>\<open>re.search\<close>: the match at the leftmost start position that has one.\<close>

fun re_search :: "(string \<Rightarrow> 'a option) \<Rightarrow> string \<Rightarrow> 'a option" where
  "re_search m [] = m []"
| "re_search m (c # cs) = (case m (c # cs) of Some g \<Rightarrow> Some g | None \<Rightarrow> re_search m cs)"

definition extract_text :: "string \<Rightarrow> ContractData" where
  "extract_text text =
     (let t = join '' '' (split_ws text)
      in \<lparr>contract = re_search match_contract t, amount = re_search match_amount t\<rparr>)"

section \<open>The Row Enumerator: the filter of collect_rows\<close>

definition DETAIL_URL_PART :: string where
  "DETAIL_URL_PART = ''/portal/compras/contratoView''"

text \<open>The loop over the batch read from the view, with its two accumulators.\<close>

fun collect_loop ::
  "(string \<times> string) list \<Rightarrow> string set \<Rightarrow> string set \<Rightarrow> (string \<times> string) list
   \<Rightarrow> (string \<times> string) list" where
  "collect_loop [] visited seen out = out"
| "collect_loop ((href, text) # items) visited seen out =
     (if href = [] \<or> \<not> str_contains DETAIL_URL_PART href
      then collect_loop items visited seen out
      else if href \<in> visited \<or> href \<in> seen
      then collect_loop items visited seen out
      else collect_loop items visited (insert href seen) (out @ [(href, text)]))"

section \<open>The browser driver\<close>

text \<open>
  The browser is an external collaborator. It is modelled as a deterministic machine
  with a state of an arbitrary type \<open>'w\<close>; every call of the driver that the engine
  makes is a field of the record below, taking the browser state and returning the
  call's result with the next browser state. A call can raise where the source guards
  it with \<open>try\<close>, where it waits with a timeout, and where it creates, navigates,
  closes, scrolls or clicks; the plain reads (\<open>count\<close>, \<open>get_attribute\<close>,
  \<open>evaluate_all\<close>, \<open>content\<close>, \<open>url\<close>) and \<open>wait_for_timeout\<close> return.
\<close>

datatype error = PWTimeout | DriverError

datatype ctx = CtxPage | CtxFrame nat

record 'w driver =
  goto_start :: "'w \<Rightarrow> (error + unit) \<times> 'w"
  row_link_count :: "'w \<Rightarrow> nat \<times> 'w"
  mouse_wheel :: "'w \<Rightarrow> (error + unit) \<times> 'w"
  wait_for_timeout :: "nat \<Rightarrow> 'w \<Rightarrow> 'w"
  wait_for_tbody :: "'w \<Rightarrow> (error + unit) \<times> 'w"
  row_hrefs :: "'w \<Rightarrow> string list \<times> 'w"
  row_items :: "'w \<Rightarrow> (string \<times> string) list \<times> 'w"
  scroll_to_bottom :: "'w \<Rightarrow> (error + unit) \<times> 'w"
  scroll_to_top :: "'w \<Rightarrow> (error + unit) \<times> 'w"
  next_count :: "'w \<Rightarrow> nat \<times> 'w"
  next_class :: "'w \<Rightarrow> string option \<times> 'w"
  next_aria_disabled :: "'w \<Rightarrow> string option \<times> 'w"
  next_scroll_into_view :: "'w \<Rightarrow> (error + unit) \<times> 'w"
  next_click :: "'w \<Rightarrow> (error + unit) \<times> 'w"
  next_js_click :: "'w \<Rightarrow> (error + unit) \<times> 'w"
  page_url :: "'w \<Rightarrow> string"
  new_page :: "'w \<Rightarrow> (error + unit) \<times> 'w"
  detail_goto :: "string \<Rightarrow> 'w \<Rightarrow> (error + unit) \<times> 'w"
  wait_for_marker :: "'w \<Rightarrow> (error + unit) \<times> 'w"
  wait_for_contract_text :: "'w \<Rightarrow> (error + unit) \<times> 'w"
  page_marker_count :: "'w \<Rightarrow> nat \<times> 'w"
  other_frames :: "'w \<Rightarrow> nat list"
  frame_marker_count :: "nat \<Rightarrow> 'w \<Rightarrow> (error + nat) \<times> 'w"
  inner_text_contract :: "ctx \<Rightarrow> 'w \<Rightarrow> (error + string) \<times> 'w"
  inner_text_valor :: "ctx \<Rightarrow> 'w \<Rightarrow> (error + string) \<times> 'w"
  content_text :: "ctx \<Rightarrow> 'w \<Rightarrow> string \<times> 'w"
  close_page :: "'w \<Rightarrow> (error + unit) \<times> 'w"

text \<open>
  The fields, by the call of the source they stand for:
  \<^item> \<open>goto_start\<close>: \<open>page.goto(START_URL)\<close>;
  \<^item> \<open>row_link_count\<close>: \<open>page.locator(VISIBLE_ROW_LINK).count()\<close>;
  \<^item> \<open>wait_for_tbody\<close>: \<open>page.wait_for_selector("table tbody", timeout=4000)\<close>;
  \<^item> \<open>row_hrefs\<close>: the \<open>evaluate_all\<close> of \<open>page_signature\<close>, the non-empty hrefs of
    the visible row links in render order;
  \<^item> \<open>row_items\<close>: the \<open>evaluate_all\<close> of \<open>collect_rows\<close>, the pairs of href (empty when
    the anchor has none) and row text of the visible row links in render order;
  \<^item> \<open>scroll_to_bottom\<close>, \<open>scroll_to_top\<close>: the two \<open>page.evaluate("window.scrollTo...")\<close>;
  \<^item> \<open>next_count\<close>, \<open>next_class\<close>, \<open>next_aria_disabled\<close>, \<open>next_scroll_into_view\<close>,
    \<open>next_click\<close>, \<open>next_js_click\<close>: \<open>count\<close>, the two \<open>get_attribute\<close>,
    \<open>scroll_into_view_if_needed\<close>, \<open>click\<close> and \<open>evaluate("el => el.click()")\<close> on
    the first \<open>.pagination a.pagination-next\<close>;
  \<^item> \<open>new_page\<close>, \<open>detail_goto\<close>, \<open>close_page\<close>: \<open>context.new_page()\<close>, \<open>dp.goto\<close>
    and \<open>dp.close()\<close> of the detail view;
  \<^item> \<open>wait_for_marker\<close>, \<open>wait_for_contract_text\<close>: the two \<open>dp.wait_for_selector\<close>;
  \<^item> \<open>page_marker_count\<close>, \<open>frame_marker_count\<close>: \<open>locator("text=Dados do
    contrato").first.count()\<close> on the detail page and on one of its frames;
    \<open>other_frames\<close>: \<open>page.frames\<close> without the main frame;
  \<^item> \<open>inner_text_contract\<close>, \<open>inner_text_valor\<close>: the two \<open>inner_text(timeout=2500)\<close>;
  \<^item> \<open>content_text\<close>: \<open>BeautifulSoup(ctx.content(), "html.parser").get_text(" ")\<close>.
\<close>

text \<open>
  The engine's own state next to the browser: a trace of what it did, in order. It
  records the log lines, every signature computed, every click attempted and every
  token handed to the Detail Fetcher.
\<close>

datatype log_msg =
    NextNotFound | NextDisabled | ClickedNext
  | FoundRows nat | ClickingRow nat string | Extracted ContractData | FailedToExtract string
  | StartingScraper | Navigating | LoadedInitial | ProcessingPage nat | NoMorePages
  | Writing nat

datatype event = Log log_msg | Signature string | Click | JsClick | Fetch string

record 'w state =
  world :: 'w
  trace :: "event list"

definition call :: "('w \<Rightarrow> 'a \<times> 'w) \<Rightarrow> 'w state \<Rightarrow> 'a \<times> 'w state" where
  "call f st = (case f (world st) of (r, w) \<Rightarrow> (r, st\<lparr>world := w\<rparr>))"

definition emit :: "event \<Rightarrow> 'w state \<Rightarrow> 'w state" where
  "emit ev st = st\<lparr>trace := trace st @ [ev]\<rparr>"

definition pause :: "'w driver \<Rightarrow> nat \<Rightarrow> 'w state \<Rightarrow> 'w state" where
  "pause d ms st = st\<lparr>world := wait_for_timeout d ms (world st)\<rparr>"

section \<open>The Table Stability Monitor\<close>

text \<open>The polling loop of \<open>wait_table_ready\<close>; the result says whether a visible row
  link was seen, which is where the source returns from inside the loop.\<close>

function wait_rows :: "'w driver \<Rightarrow> nat \<Rightarrow> nat \<Rightarrow> 'w state \<Rightarrow> bool \<times> 'w state" where
  "wait_rows d timeout_ms waited st =
     (if waited < timeout_ms then
        (case call (row_link_count d) st of
           (n, st1) \<Rightarrow>
             if 0 < n then (True, st1)
             else (case call (mouse_wheel d) st1 of
                     (r, st2) \<Rightarrow> wait_rows d timeout_ms (waited + 200) (pause d 200 st2)))
      else (False, st))"
  by pat_completeness auto
termination
  by (relation "measure (\<lambda>(d, timeout_ms, waited, st). timeout_ms - waited)") auto

declare wait_rows.simps [simp del]

definition wait_table_ready :: "'w driver \<Rightarrow> nat \<Rightarrow> 'w state \<Rightarrow> (error + unit) \<times> 'w state" where
  "wait_table_ready d timeout_ms st =
     (case wait_rows d timeout_ms 0 st of
        (found, st1) \<Rightarrow> if found then (Inr (), st1) else call (wait_for_tbody d) st1)"

section \<open>The Pagination Controller\<close>

definition page_signature :: "'w driver \<Rightarrow> 'w state \<Rightarrow> string \<times> 'w state" where
  "page_signature d st =
     (case call (row_hrefs d) st of
        (hrefs, st1) \<Rightarrow>
          (let sig = join ''|'' (filter (str_contains DETAIL_URL_PART) hrefs)
           in (sig, emit (Signature sig) st1)))"

text \<open>\<open>x or ""\<close> on an optional attribute value.\<close>

definition or_empty :: "string option \<Rightarrow> string" where
  "or_empty x = (case x of None \<Rightarrow> [] | Some s \<Rightarrow> s)"

text \<open>The click with its fallback (the second \<open>try\<close> of \<open>click_next\<close>).\<close>

definition press_next :: "'w driver \<Rightarrow> 'w state \<Rightarrow> (error + unit) \<times> 'w state" where
  "press_next d st =
     (case call (next_scroll_into_view d) st of
        (Inl e, st1) \<Rightarrow> call (next_js_click d) (emit JsClick st1)
      | (Inr u, st1) \<Rightarrow>
          (case call (next_click d) (emit Click st1) of
             (Inl e, st2) \<Rightarrow> call (next_js_click d) (emit JsClick st2)
           | (Inr u, st2) \<Rightarrow> (Inr (), st2)))"

text \<open>The polling loop of \<open>click_next\<close>; the result is \<open>changed\<close>.\<close>

function poll_signature :: "'w driver \<Rightarrow> string \<Rightarrow> nat \<Rightarrow> 'w state \<Rightarrow> bool \<times> 'w state" where
  "poll_signature d prev_sig waited st =
     (if waited < 10000 then
        (case page_signature d st of
           (sig, st1) \<Rightarrow>
             if sig \<noteq> [] \<and> sig \<noteq> prev_sig then (True, st1)
             else poll_signature d prev_sig (waited + 200) (pause d 200 st1))
      else (False, st))"
  by pat_completeness auto
termination
  by (relation "measure (\<lambda>(d, prev_sig, waited, st). 10000 - waited)") auto

declare poll_signature.simps [simp del]

definition click_next :: "'w driver \<Rightarrow> 'w state \<Rightarrow> (error + bool) \<times> 'w state" where
  "click_next d st =
     (case page_signature d st of
        (prev_sig, st1) \<Rightarrow>
          (let st2 = (case call (scroll_to_bottom d) st1 of
                        (Inl e, s) \<Rightarrow> s
                      | (Inr u, s) \<Rightarrow> pause d 100 s)
           in case call (next_count d) st2 of
                (n, st3) \<Rightarrow>
                  if n = 0 then (Inr False, emit (Log NextNotFound) st3)
                  else
                    (case call (next_class d) st3 of
                       (c, st4) \<Rightarrow>
                         (case call (next_aria_disabled d) st4 of
                            (a, st5) \<Rightarrow>
                              (let cls = lower (or_empty c); aria = lower (or_empty a)
                               in if str_contains ''disabled'' cls
                                     \<or> aria \<in> {''true'', ''disabled''}
                                  then (Inr False, emit (Log NextDisabled) st5)
                                  else
                                    (case press_next d st5 of
                                       (Inl e, st6) \<Rightarrow> (Inl e, st6)
                                     | (Inr u, st6) \<Rightarrow>
                                         (case poll_signature d prev_sig 0
                                                 (emit (Log ClickedNext) st6) of
                                            (changed, st7) \<Rightarrow>
                                              if \<not> changed then (Inr False, st7)
                                              else
                                                (case call (scroll_to_top d) st7 of
                                                   (Inl e, st8) \<Rightarrow> (Inl e, st8)
                                                 | (Inr u, st8) \<Rightarrow>
                                                     (case wait_table_ready d 10000 st8 of
                                                        (Inl e, st9) \<Rightarrow> (Inl e, st9)
                                                      | (Inr u, st9) \<Rightarrow> (Inr True, st9))))))))))"

section \<open>The Row Enumerator\<close>

definition collect_rows ::
  "'w driver \<Rightarrow> string set \<Rightarrow> 'w state \<Rightarrow> (string \<times> string) list \<times> 'w state" where
  "collect_rows d visited st =
     (case call (row_items d) st of
        (items, st1) \<Rightarrow> (collect_loop items visited {} [], st1))"

section \<open>The Detail Fetcher\<close>

definition make_abs_url :: "string \<Rightarrow> string \<Rightarrow> string" where
  "make_abs_url current_url href =
     (let base = takeWhile (\<lambda>c. c \<noteq> CHR ''#'') current_url
      in if prefix ''#'' href then base @ href else href)"

fun scan_frames :: "'w driver \<Rightarrow> nat list \<Rightarrow> 'w state \<Rightarrow> ctx \<times> 'w state" where
  "scan_frames d [] st = (CtxPage, st)"
| "scan_frames d (fr # frs) st =
     (case call (frame_marker_count d fr) st of
        (Inl e, st1) \<Rightarrow> scan_frames d frs st1
      | (Inr n, st1) \<Rightarrow> if 0 < n then (CtxFrame fr, st1) else scan_frames d frs st1)"

definition pick_ctx :: "'w driver \<Rightarrow> 'w state \<Rightarrow> ctx \<times> 'w state" where
  "pick_ctx d st =
     (case call (page_marker_count d) st of
        (n, st1) \<Rightarrow>
          if 0 < n then (CtxPage, st1) else scan_frames d (other_frames d (world st1)) st1)"

text \<open>Python's truth value of an optional string: neither \<open>None\<close> nor empty.\<close>

definition truthy :: "string option \<Rightarrow> bool" where
  "truthy x = (case x of None \<Rightarrow> False | Some s \<Rightarrow> s \<noteq> [])"

text \<open>The fallback tier: the last two lines of \<open>extract_from_context\<close>.\<close>

definition fallback_tier ::
  "'w driver \<Rightarrow> ctx \<Rightarrow> 'w state \<Rightarrow> (error + ContractData) \<times> 'w state" where
  "fallback_tier d c st =
     (case call (content_text d c) st of (t, st1) \<Rightarrow> (Inr (extract_text t), st1))"

definition extract_from_context ::
  "'w driver \<Rightarrow> ctx \<Rightarrow> 'w state \<Rightarrow> (error + ContractData) \<times> 'w state" where
  "extract_from_context d c st =
     (case call (inner_text_contract d c) st of
        (Inl PWTimeout, st1) \<Rightarrow> fallback_tier d c st1
      | (Inl DriverError, st1) \<Rightarrow> (Inl DriverError, st1)
      | (Inr ct, st1) \<Rightarrow>
          (case call (inner_text_valor d c) st1 of
             (Inl PWTimeout, st2) \<Rightarrow> fallback_tier d c st2
           | (Inl DriverError, st2) \<Rightarrow> (Inl DriverError, st2)
           | (Inr vt, st2) \<Rightarrow>
               (let dd = extract_text (ct @ '' '' @ vt)
                in if truthy (contract dd) \<and> truthy (amount dd) then (Inr dd, st2)
                   else fallback_tier d c st2)))"

text \<open>The body of the \<open>try\<close> of \<open>open_details_and_extract\<close>.\<close>

definition detail_body ::
  "'w driver \<Rightarrow> string \<Rightarrow> 'w state \<Rightarrow> (error + ContractData) \<times> 'w state" where
  "detail_body d url st =
     (case call (detail_goto d url) st of
        (Inl e, st1) \<Rightarrow> (Inl e, st1)
      | (Inr u, st1) \<Rightarrow>
          (case (case call (wait_for_marker d) st1 of
                   (Inl PWTimeout, st2) \<Rightarrow>
                     (case call (wait_for_contract_text d) st2 of
                        (Inl PWTimeout, st3) \<Rightarrow> (Inr (), st3)
                      | (Inl DriverError, st3) \<Rightarrow> (Inl DriverError, st3)
                      | (Inr u, st3) \<Rightarrow> (Inr (), st3))
                 | (Inl DriverError, st2) \<Rightarrow> (Inl DriverError, st2)
                 | (Inr u, st2) \<Rightarrow> (Inr (), st2)) of
             (Inl e, st4) \<Rightarrow> (Inl e, st4)
           | (Inr u, st4) \<Rightarrow>
               (case pick_ctx d st4 of (c, st5) \<Rightarrow> extract_from_context d c st5)))"

definition open_details_and_extract ::
  "'w driver \<Rightarrow> string \<Rightarrow> 'w state \<Rightarrow> (error + ContractData) \<times> 'w state" where
  "open_details_and_extract d href st =
     (let st0 = emit (Fetch href) st;
          url = make_abs_url (page_url d (world st0)) href
      in case call (new_page d) st0 of
           (Inl e, st1) \<Rightarrow> (Inl e, st1)
         | (Inr u, st1) \<Rightarrow>
             (case detail_body d url st1 of
                (r, st2) \<Rightarrow>
                  (case call (close_page d) st2 of
                     (Inl e, st3) \<Rightarrow> (Inl e, st3)
                   | (Inr u, st3) \<Rightarrow> (r, st3))))"

section \<open>The Crawl Orchestrator\<close>

text \<open>
  The stash and the visited set are objects the source mutates in place, so every
  function returns them, also when it raises. The body of the loop over the rows:
\<close>

definition process_row ::
  "'w driver \<Rightarrow> nat \<Rightarrow> string \<Rightarrow> string \<Rightarrow> ContractData list \<Rightarrow> string set \<Rightarrow> 'w state
   \<Rightarrow> (error + unit) \<times> ContractData list \<times> string set \<times> 'w state" where
  "process_row d idx href row_text stash visited st =
     (case open_details_and_extract d href (emit (Log (ClickingRow idx row_text)) st) of
        (Inl e, st1) \<Rightarrow> (Inl e, stash, insert href visited, st1)
      | (Inr details, st1) \<Rightarrow>
          if truthy (contract details) \<and> truthy (amount details)
          then (Inr (), stash @ [details], insert href visited,
                emit (Log (Extracted details)) st1)
          else (Inr (), stash, insert href visited, emit (Log (FailedToExtract href)) st1))"

fun process_rows ::
  "'w driver \<Rightarrow> nat \<Rightarrow> (string \<times> string) list \<Rightarrow> ContractData list \<Rightarrow> string set \<Rightarrow> 'w state
   \<Rightarrow> (error + unit) \<times> ContractData list \<times> string set \<times> 'w state" where
  "process_rows d idx [] stash visited st = (Inr (), stash, visited, st)"
| "process_rows d idx ((href, row_text) # rows) stash visited st =
     (case process_row d idx href row_text stash visited st of
        (Inl e, stash1, visited1, st1) \<Rightarrow> (Inl e, stash1, visited1, st1)
      | (Inr u, stash1, visited1, st1) \<Rightarrow> process_rows d (idx + 1) rows stash1 visited1 st1)"

definition process_current_table ::
  "'w driver \<Rightarrow> ContractData list \<Rightarrow> string set \<Rightarrow> 'w state
   \<Rightarrow> (error + unit) \<times> ContractData list \<times> string set \<times> 'w state" where
  "process_current_table d stash visited st =
     (case wait_table_ready d 10000 st of
        (Inl e, st1) \<Rightarrow> (Inl e, stash, visited, st1)
      | (Inr u, st1) \<Rightarrow>
          (case collect_rows d visited st1 of
             (rows, st2) \<Rightarrow>
               if rows = [] then (Inr (), stash, visited, st2)
               else process_rows d 1 rows stash visited
                      (emit (Log (FoundRows (length rows))) st2)))"

text \<open>
  The \<open>while True\<close> of \<open>scrape\<close> need not end, so the loop takes the number of pages it
  may still process; \<open>None\<close> says that this number ran out before the loop ended,
  \<open>Some (Inl e)\<close> that \<open>e\<close> was raised, \<open>Some (Inr ())\<close> that the loop ended by \<open>break\<close>.
\<close>

fun scrape_loop ::
  "'w driver \<Rightarrow> nat \<Rightarrow> nat \<Rightarrow> ContractData list \<Rightarrow> string set \<Rightarrow> 'w state
   \<Rightarrow> (error + unit) option \<times> ContractData list \<times> string set \<times> 'w state" where
  "scrape_loop d 0 page_idx stash visited st = (None, stash, visited, st)"
| "scrape_loop d (Suc fuel) page_idx stash visited st =
     (case process_current_table d stash visited (emit (Log (ProcessingPage page_idx)) st) of
        (Inl e, stash1, visited1, st1) \<Rightarrow> (Some (Inl e), stash1, visited1, st1)
      | (Inr u, stash1, visited1, st1) \<Rightarrow>
          (case click_next d st1 of
             (Inl e, st2) \<Rightarrow> (Some (Inl e), stash1, visited1, st2)
           | (Inr changed, st2) \<Rightarrow>
               if \<not> changed then (Some (Inr ()), stash1, visited1, emit (Log NoMorePages) st2)
               else scrape_loop d fuel (page_idx + 1) stash1 visited1 st2))"

text \<open>\<open>scrape\<close> from the first navigation to the end of the loop; the stash it returns
  is what the source then writes out.\<close>

definition scrape ::
  "'w driver \<Rightarrow> nat \<Rightarrow> 'w
   \<Rightarrow> (error + unit) option \<times> ContractData list \<times> string set \<times> 'w state" where
  "scrape d fuel w =
     (let st = emit (Log Navigating) (emit (Log StartingScraper) \<lparr>world = w, trace = []\<rparr>)
      in case call (goto_start d) st of
           (Inl e, st1) \<Rightarrow> (Some (Inl e), [], {}, st1)
         | (Inr u, st1) \<Rightarrow> scrape_loop d fuel 1 [] {} (emit (Log LoadedInitial) st1))"

section \<open>What the claims say, as definitions\<close>

text \<open>The entry at index \<open>i\<close> of a batch is kept by the Row Enumerator: its token is
  not empty, contains the detail-link pattern, is not in the visited set and does not
  occur at an earlier index of the batch.\<close>

definition keep_row :: "(string \<times> string) list \<Rightarrow> string set \<Rightarrow> nat \<Rightarrow> bool" where
  "keep_row items visited i =
     (let h = fst (items ! i)
      in h \<noteq> [] \<and> str_contains DETAIL_URL_PART h \<and> h \<notin> visited
         \<and> h \<notin> fst ` set (take i items))"

section \<open>A small portal to run the engine on\<close>

text \<open>
  Two table pages; the first renders three rows and repeats the link of the first row,
  the second renders one row. The detail view of the third row has no amount. The
  browser state is the number of the table page and the address of the detail view.
\<close>

definition portal_rows :: "nat \<Rightarrow> (string \<times> string) list" where
  "portal_rows p =
     (if p = 0 then
        [(''#/palmeira/portal/compras/contratoView/1'', ''001/2024 Obras''),
         (''#/palmeira/portal/compras/contratoView/2'', ''002/2024 Merenda''),
         (''#/palmeira/portal/compras/contratoView/1'', ''001/2024 Obras''),
         (''#/palmeira/portal/compras/contratoView/3'', ''003/2024 Frota'')]
      else [(''#/palmeira/portal/compras/contratoView/4'', ''004/2024 Limpeza'')])"

definition portal_text :: "string \<Rightarrow> string" where
  "portal_text url =
     (if url = ''https://portal/#/palmeira/portal/compras/contratoView/1''
      then ''Dados do contrato Contrato 001/2024 Valor total R$ 1.000,00''
      else if url = ''https://portal/#/palmeira/portal/compras/contratoView/2''
      then ''Contrato  002/2024  Valor total R$ 2.500,50''
      else if url = ''https://portal/#/palmeira/portal/compras/contratoView/3''
      then ''Contrato 003/2024''
      else ''Contrato 004/2024 Valor total R$ 40,00'')"

definition portal :: "(nat \<times> string) driver" where
  "portal =
     \<lparr>goto_start = (\<lambda>w. (Inr (), w)),
      row_link_count = (\<lambda>w. (length (portal_rows (fst w)), w)),
      mouse_wheel = (\<lambda>w. (Inr (), w)),
      wait_for_timeout = (\<lambda>ms w. w),
      wait_for_tbody = (\<lambda>w. (Inr (), w)),
      row_hrefs = (\<lambda>w. (map fst (portal_rows (fst w)), w)),
      row_items = (\<lambda>w. (portal_rows (fst w), w)),
      scroll_to_bottom = (\<lambda>w. (Inr (), w)),
      scroll_to_top = (\<lambda>w. (Inr (), w)),
      next_count = (\<lambda>w. (1, w)),
      next_class = (\<lambda>w. (Some (if fst w = 0 then ''pagination-next''
                                 else ''pagination-next disabled''), w)),
      next_aria_disabled = (\<lambda>w. (None, w)),
      next_scroll_into_view = (\<lambda>w. (Inr (), w)),
      next_click = (\<lambda>w. (Inr (), (Suc (fst w), snd w))),
      next_js_click = (\<lambda>w. (Inr (), (Suc (fst w), snd w))),
      page_url = (\<lambda>w. ''https://portal/#/palmeira/portal/compras/contratoTable''),
      new_page = (\<lambda>w. (Inr (), w)),
      detail_goto = (\<lambda>url w. (Inr (), (fst w, url))),
      wait_for_marker = (\<lambda>w. (Inl PWTimeout, w)),
      wait_for_contract_text = (\<lambda>w. (Inr (), w)),
      page_marker_count = (\<lambda>w. (0, w)),
      other_frames = (\<lambda>w. []),
      frame_marker_count = (\<lambda>fr w. (Inr 0, w)),
      inner_text_contract = (\<lambda>c w. (Inl PWTimeout, w)),
      inner_text_valor = (\<lambda>c w. (Inl PWTimeout, w)),
      content_text = (\<lambda>c w. (portal_text (snd w), w)),
      close_page = (\<lambda>w. (Inr (), w))\<rparr>"

definition portal_start :: "(nat \<times> string) state" where
  "portal_start = \<lparr>world = (0, []), trace = []\<rparr>"


text \<open>What \<open>click_next\<close> reads when it inspects the next control: the count of
  the locator, its class attribute and its aria-disabled attribute, in the browser states
  in which the function reads them.\<close>

definition next_control :: "'w driver \<Rightarrow> 'w state \<Rightarrow> nat \<times> string option \<times> string option" where
  "next_control d st =
     (case page_signature d st of
        (prev_sig, st1) \<Rightarrow>
          (let st2 = (case call (scroll_to_bottom d) st1 of
                        (Inl e, s) \<Rightarrow> s
                      | (Inr u, s) \<Rightarrow> pause d 100 s)
           in case call (next_count d) st2 of
                (n, st3) \<Rightarrow>
                  (case call (next_class d) st3 of
                     (c, st4) \<Rightarrow>
                       (case call (next_aria_disabled d) st4 of
                          (a, st5) \<Rightarrow> (n, c, a)))))"

text \<open>The test of line 89 on the two attribute values.\<close>

definition marked_disabled :: "string option \<Rightarrow> string option \<Rightarrow> bool" where
  "marked_disabled c a =
     (str_contains ''disabled'' (lower (or_empty c))
      \<or> lower (or_empty a) \<in> {''true'', ''disabled''})"

text \<open>The signatures a stretch of the trace holds, in order.\<close>

fun signatures :: "event list \<Rightarrow> string list" where
  "signatures [] = []"
| "signatures (Signature sig # evs) = sig # signatures evs"
| "signatures (ev # evs) = signatures evs"

text \<open>The tokens handed to the Detail Fetcher in a stretch of the trace, in order.\<close>

fun fetched :: "event list \<Rightarrow> string list" where
  "fetched [] = []"
| "fetched (Fetch href # evs) = href # fetched evs"
| "fetched (ev # evs) = fetched evs"

text \<open>A record with both fields present.\<close>

definition complete :: "ContractData \<Rightarrow> bool" where
  "complete details = (contract details \<noteq> None \<and> amount details \<noteq> None)"

text \<open>The invariant of the crawl: no token was fetched twice, and every fetched token
  is in the visited set.\<close>

definition fetched_once :: "string set \<Rightarrow> 'w state \<Rightarrow> bool" where
  "fetched_once visited st =
     (distinct (fetched (trace st)) \<and> set (fetched (trace st)) \<subseteq> visited)"

section \<open>The Row Enumerator returns exactly the new rows\<close>

lemma keep_row_Cons:
  "map (\<lambda>i. ((h, t) # items) ! i)
     (filter (\<lambda>i. keep_row ((h, t) # items) visited i \<and> fst (((h, t) # items) ! i) \<notin> seen)
        [0..<Suc (length items)])
   = (if h \<noteq> [] \<and> str_contains DETAIL_URL_PART h \<and> h \<notin> visited \<and> h \<notin> seen
      then [(h, t)] else [])
     @ map (\<lambda>i. items ! i)
        (filter (\<lambda>i. keep_row items visited i \<and> fst (items ! i) \<notin> insert h seen)
           [0..<length items])"
proof -
  have upt: "[0..<Suc (length items)] = 0 # map Suc [0..<length items]"
    by (simp add: upt_conv_Cons map_Suc_upt del: upt_Suc)
  have k0: "keep_row ((h, t) # items) visited 0
      = (h \<noteq> [] \<and> str_contains DETAIL_URL_PART h \<and> h \<notin> visited)"
    by (simp add: keep_row_def)
  have kS: "keep_row ((h, t) # items) visited (Suc i)
      = (keep_row items visited i \<and> fst (items ! i) \<noteq> h)" for i
    by (auto simp: keep_row_def Let_def)
  have eq: "(\<lambda>i. (keep_row items visited i \<and> fst (items ! i) \<noteq> h) \<and> fst (items ! i) \<notin> seen)
      = (\<lambda>i. keep_row items visited i \<and> fst (items ! i) \<notin> insert h seen)"
    by auto
  show ?thesis
    unfolding upt by (simp add: filter_map comp_def k0 kS eq)
qed

lemma keep_row_skip:
  assumes "h = [] \<or> \<not> str_contains DETAIL_URL_PART h \<or> h \<in> visited \<or> h \<in> seen"
  shows "(keep_row items visited i \<and> fst (items ! i) \<notin> insert h seen)
     = (keep_row items visited i \<and> fst (items ! i) \<notin> seen)"
  using assms by (auto simp: keep_row_def Let_def)

lemma collect_loop_general:
  "collect_loop items visited seen out =
     out @ map (\<lambda>i. items ! i)
       (filter (\<lambda>i. keep_row items visited i \<and> fst (items ! i) \<notin> seen) [0..<length items])"
proof (induction items arbitrary: seen out)
  case Nil
  show ?case by simp
next
  case (Cons it items)
  obtain h t where it: "it = (h, t)" by (cases it)
  show ?case
  proof (cases "h = [] \<or> \<not> str_contains DETAIL_URL_PART h \<or> h \<in> visited \<or> h \<in> seen")
    case True
    have "collect_loop (it # items) visited seen out = collect_loop items visited seen out"
      using True by (auto simp: it)
    also have "\<dots> = out @ map (\<lambda>i. items ! i)
       (filter (\<lambda>i. keep_row items visited i \<and> fst (items ! i) \<notin> seen) [0..<length items])"
      by (rule Cons.IH)
    finally show ?thesis
      using True unfolding it length_Cons keep_row_Cons keep_row_skip [OF True] by auto
  next
    case False
    have "collect_loop (it # items) visited seen out
        = collect_loop items visited (insert h seen) (out @ [(h, t)])"
      using False by (auto simp: it)
    also have "\<dots> = (out @ [(h, t)]) @ map (\<lambda>i. items ! i)
       (filter (\<lambda>i. keep_row items visited i \<and> fst (items ! i) \<notin> insert h seen)
          [0..<length items])"
      by (rule Cons.IH)
    finally show ?thesis
      using False unfolding it length_Cons keep_row_Cons by simp
  qed
qed

text \<open>
  Claim C6. For every batch of raw link entries that \<open>collect_rows\<close> reads from the view
  and every visited set, the result is exactly the entries of the batch, in the order of
  the batch, whose token is not empty, contains the detail-link pattern, is not in the
  visited set and has not occurred at an earlier index of the batch (so the first
  occurrence of a repeated token is the one kept).
\<close>

theorem collect_rows_exact:
  assumes "call (row_items d) st = (items, st1)"
  shows "collect_rows d visited st =
     (map (\<lambda>i. items ! i) (filter (keep_row items visited) [0..<length items]), st1)"
  using assms by (simp add: collect_rows_def collect_loop_general)

theorem collect_rows_exact_witness:
  "call (row_items portal) portal_start = (portal_rows 0, portal_start)
   \<and> collect_rows portal {''#/palmeira/portal/compras/contratoView/2''} portal_start =
       ([(''#/palmeira/portal/compras/contratoView/1'', ''001/2024 Obras''),
         (''#/palmeira/portal/compras/contratoView/3'', ''003/2024 Frota'')], portal_start)"
proof -
  have h: "call (row_items portal) portal_start = (portal_rows 0, portal_start)"
    by (simp add: call_def portal_def portal_start_def)
  have "map (\<lambda>i. portal_rows 0 ! i)
          (filter (keep_row (portal_rows 0) {''#/palmeira/portal/compras/contratoView/2''})
             [0..<length (portal_rows 0)])
        = [(''#/palmeira/portal/compras/contratoView/1'', ''001/2024 Obras''),
           (''#/palmeira/portal/compras/contratoView/3'', ''003/2024 Frota'')]"
    by (simp add: portal_rows_def keep_row_def DETAIL_URL_PART_def upt_rec [of 0] upt_rec [of 1]
          upt_rec [of 2] upt_rec [of 3] upt_rec [of 4])
  then show ?thesis
    using h collect_rows_exact [OF h, of "{''#/palmeira/portal/compras/contratoView/2''}"]
    by simp
qed

section \<open>The trace and the Table Stability Monitor\<close>

lemma trace_call: "call f st = (r, st') \<Longrightarrow> trace st' = trace st"
  by (auto simp: call_def split: prod.splits)

lemma trace_emit: "trace (emit ev st) = trace st @ [ev]"
  by (simp add: emit_def)

lemma trace_pause: "trace (pause d ms st) = trace st"
  by (simp add: pause_def)

lemma trace_wait_rows: "wait_rows d t w st = (b, st') \<Longrightarrow> trace st' = trace st"
proof (induction d t w st rule: wait_rows.induct)
  case (1 d timeout_ms waited st)
  show ?case
  proof (cases "waited < timeout_ms")
    case False
    with "1.prems" show ?thesis by (simp add: wait_rows.simps)
  next
    case True
    obtain n st1 where c1: "call (row_link_count d) st = (n, st1)" by (cases "call (row_link_count d) st")
    show ?thesis
    proof (cases "0 < n")
      case pos: True
      with True c1 "1.prems" have "st' = st1" by (simp add: wait_rows.simps [of d timeout_ms waited st])
      with c1 show ?thesis by (simp add: trace_call)
    next
      case zero: False
      obtain r st2 where c2: "call (mouse_wheel d) st1 = (r, st2)" by (cases "call (mouse_wheel d) st1")
      from True c1 zero c2 "1.prems"
      have "wait_rows d timeout_ms (waited + 200) (pause d 200 st2) = (b, st')"
        by (simp add: wait_rows.simps [of d timeout_ms waited st])
      from "1.IH" [OF True c1 [symmetric] _ c2 [symmetric] this] zero
      have "trace st' = trace (pause d 200 st2)" by simp
      then show ?thesis using c1 c2 by (simp add: trace_pause trace_call)
    qed
  qed
qed

lemma wait_rows_found:
  "wait_rows d t w st = (True, st') \<Longrightarrow> \<exists>st0 n. call (row_link_count d) st0 = (n, st') \<and> 0 < n"
proof (induction d t w st rule: wait_rows.induct)
  case (1 d timeout_ms waited st)
  show ?case
  proof (cases "waited < timeout_ms")
    case False
    with "1.prems" show ?thesis by (simp add: wait_rows.simps)
  next
    case True
    obtain n st1 where c1: "call (row_link_count d) st = (n, st1)" by (cases "call (row_link_count d) st")
    show ?thesis
    proof (cases "0 < n")
      case pos: True
      with True c1 "1.prems" have "st' = st1" by (simp add: wait_rows.simps [of d timeout_ms waited st])
      with c1 pos show ?thesis by blast
    next
      case zero: False
      obtain r st2 where c2: "call (mouse_wheel d) st1 = (r, st2)" by (cases "call (mouse_wheel d) st1")
      from True c1 zero c2 "1.prems"
      have "wait_rows d timeout_ms (waited + 200) (pause d 200 st2) = (True, st')"
        by (simp add: wait_rows.simps [of d timeout_ms waited st])
      from "1.IH" [OF True c1 [symmetric] _ c2 [symmetric] this] zero
      show ?thesis by simp
    qed
  qed
qed

lemma trace_wait_table_ready:
  assumes "wait_table_ready d t st = (r, st')"
  shows "trace st' = trace st"
proof -
  obtain found st1 where w: "wait_rows d t 0 st = (found, st1)"
    by (cases "wait_rows d t 0 st")
  then have t1: "trace st1 = trace st" by (rule trace_wait_rows)
  show ?thesis
  proof (cases found)
    case True
    with assms w have "st' = st1" by (simp add: wait_table_ready_def)
    with t1 show ?thesis by simp
  next
    case False
    with assms w have "call (wait_for_tbody d) st1 = (r, st')"
      by (simp add: wait_table_ready_def)
    then show ?thesis using t1 by (simp add: trace_call)
  qed
qed





section \<open>The Pagination Controller: when it reports an advance\<close>

lemma trace_page_signature:
  "page_signature d st = (sig, st') \<Longrightarrow> trace st' = trace st @ [Signature sig]"
  by (auto simp: page_signature_def Let_def emit_def call_def split: prod.splits)

text \<open>What the polling loop of \<open>click_next\<close> adds to the trace: signatures only; it says
  \<open>changed\<close> exactly when one of them is neither empty nor the signature before the
  click; it computes at most 50 of them when it starts at 0.\<close>

lemma poll_signature_trace:
  "poll_signature d prev waited st = (changed, st') \<Longrightarrow>
   \<exists>sigs. trace st' = trace st @ map Signature sigs
        \<and> (changed \<longleftrightarrow> (\<exists>sig \<in> set sigs. sig \<noteq> [] \<and> sig \<noteq> prev))
        \<and> (sigs = [] \<or> waited + 200 * length sigs < 10200)"
proof (induction d prev waited st rule: poll_signature.induct)
  case (1 d prev_sig waited st)
  show ?case
  proof (cases "waited < 10000")
    case False
    with "1.prems" have "st' = st" "\<not> changed" by (auto simp: poll_signature.simps)
    then show ?thesis by (intro exI [of _ "[]"]) simp
  next
    case True
    obtain sig st1 where p: "page_signature d st = (sig, st1)" by (cases "page_signature d st")
    then have t1: "trace st1 = trace st @ [Signature sig]" by (rule trace_page_signature)
    show ?thesis
    proof (cases "sig \<noteq> [] \<and> sig \<noteq> prev_sig")
      case hit: True
      with True p "1.prems" have "st' = st1" "changed"
        by (auto simp: poll_signature.simps [of d prev_sig waited st])
      with t1 hit True show ?thesis by (intro exI [of _ "[sig]"]) simp
    next
      case miss: False
      with True p "1.prems"
      have r: "poll_signature d prev_sig (waited + 200) (pause d 200 st1) = (changed, st')"
        by (auto simp: poll_signature.simps [of d prev_sig waited st])
      from "1.IH" [OF True p [symmetric] miss r]
      obtain sigs where s: "trace st' = trace (pause d 200 st1) @ map Signature sigs"
        and c: "changed \<longleftrightarrow> (\<exists>sig \<in> set sigs. sig \<noteq> [] \<and> sig \<noteq> prev_sig)"
        and l: "sigs = [] \<or> (waited + 200) + 200 * length sigs < 10200"
        by blast
      have "trace st' = trace st @ map Signature (sig # sigs)"
        using s t1 by (simp add: trace_pause)
      moreover have "changed \<longleftrightarrow> (\<exists>x \<in> set (sig # sigs). x \<noteq> [] \<and> x \<noteq> prev_sig)"
        using c miss by auto
      moreover have "waited + 200 * length (sig # sigs) < 10200"
        using l True by auto
      ultimately show ?thesis by blast
    qed
  qed
qed

lemma press_next_trace:
  "press_next d st = (r, st') \<Longrightarrow>
   \<exists>evs. trace st' = trace st @ evs \<and> set evs \<subseteq> {Click, JsClick} \<and> evs \<noteq> []"
  by (auto simp: press_next_def call_def emit_def split: prod.splits sum.splits)

lemma click_next_shape:
  assumes cn: "click_next d st = (r, st')"
    and nc: "next_control d st = (n, c, a)"
    and ps: "page_signature d st = (prev, st1)"
  shows "(n = 0 \<and> r = Inr False \<and> trace st' = trace st @ [Signature prev, Log NextNotFound])
     \<or> (n \<noteq> 0 \<and> marked_disabled c a \<and> r = Inr False
          \<and> trace st' = trace st @ [Signature prev, Log NextDisabled])
     \<or> (n \<noteq> 0 \<and> \<not> marked_disabled c a
          \<and> (\<exists>clicks. set clicks \<subseteq> {Click, JsClick} \<and> clicks \<noteq> []
                \<and> ((\<exists>e. r = Inl e \<and> trace st' = trace st @ Signature prev # clicks)
                   \<or> (\<exists>sigs. trace st' = trace st @ Signature prev # clicks
                                  @ Log ClickedNext # map Signature sigs
                        \<and> length sigs \<le> 50
                        \<and> (if \<exists>sig \<in> set sigs. sig \<noteq> [] \<and> sig \<noteq> prev
                           then r \<noteq> Inr False else r = Inr False)))))"
proof -
  have t1: "trace st1 = trace st @ [Signature prev]"
    using ps by (rule trace_page_signature)
  define st2 where "st2 = (case call (scroll_to_bottom d) st1 of
                        (Inl e, s) \<Rightarrow> s
                      | (Inr u, s) \<Rightarrow> pause d 100 s)"
  have t2: "trace st2 = trace st1"
    unfolding st2_def
    by (auto simp: trace_pause split: prod.splits sum.splits dest: trace_call)
  obtain n' st3 where c3: "call (next_count d) st2 = (n', st3)"
    by (cases "call (next_count d) st2")
  obtain c' st4 where c4: "call (next_class d) st3 = (c', st4)"
    by (cases "call (next_class d) st3")
  obtain a' st5 where c5: "call (next_aria_disabled d) st4 = (a', st5)"
    by (cases "call (next_aria_disabled d) st4")
  have "next_control d st = (n', c', a')"
    using ps c3 c4 c5 by (simp add: next_control_def st2_def [symmetric])
  with nc have eq: "n' = n" "c' = c" "a' = a" by simp_all
  have t5: "trace st5 = trace st @ [Signature prev]" "trace st3 = trace st @ [Signature prev]"
    using trace_call [OF c3] trace_call [OF c4] trace_call [OF c5] t1 t2 by simp_all
  show ?thesis
  proof (cases "n = 0")
    case True
    with cn ps c3 eq have "r = Inr False" "st' = emit (Log NextNotFound) st3"
      by (simp_all add: click_next_def st2_def [symmetric])
    with True t5 show ?thesis by (simp add: trace_emit)
  next
    case nz: False
    show ?thesis
    proof (cases "marked_disabled c a")
      case True
      with cn ps c3 c4 c5 eq nz have "r = Inr False" "st' = emit (Log NextDisabled) st5"
        by (simp_all add: click_next_def st2_def [symmetric] marked_disabled_def Let_def)
      with True nz t5 show ?thesis by (simp add: trace_emit)
    next
      case en: False
      obtain rp st6 where pn: "press_next d st5 = (rp, st6)" by (cases "press_next d st5")
      from press_next_trace [OF pn] obtain clicks
        where t6: "trace st6 = trace st5 @ clicks" and cl: "set clicks \<subseteq> {Click, JsClick}"
          and ne: "clicks \<noteq> []"
        by blast
      show ?thesis
      proof (cases rp)
        case (Inl e)
        with cn ps c3 c4 c5 eq nz en pn have "r = Inl e" "st' = st6"
          by (simp_all add: click_next_def st2_def [symmetric] marked_disabled_def Let_def)
        with nz en t6 t5 cl ne show ?thesis by auto
      next
        case (Inr u)
        obtain changed st7
          where po: "poll_signature d prev 0 (emit (Log ClickedNext) st6) = (changed, st7)"
          by (cases "poll_signature d prev 0 (emit (Log ClickedNext) st6)")
        from poll_signature_trace [OF po] obtain sigs
          where t7: "trace st7 = trace (emit (Log ClickedNext) st6) @ map Signature sigs"
            and ch: "changed \<longleftrightarrow> (\<exists>sig \<in> set sigs. sig \<noteq> [] \<and> sig \<noteq> prev)"
            and len: "sigs = [] \<or> 0 + 200 * length sigs < 10200"
          by blast
        have len50: "length sigs \<le> 50" using len by auto
        have t7': "trace st7 = trace st @ Signature prev # clicks
                                  @ Log ClickedNext # map Signature sigs"
          using t7 t6 t5 by (simp add: trace_emit)
        have rest: "click_next d st =
            (if \<not> changed then (Inr False, st7)
             else (case call (scroll_to_top d) st7 of
                     (Inl e, st8) \<Rightarrow> (Inl e, st8)
                   | (Inr u, st8) \<Rightarrow>
                       (case wait_table_ready d 10000 st8 of
                          (Inl e, st9) \<Rightarrow> (Inl e, st9)
                        | (Inr u, st9) \<Rightarrow> (Inr True, st9))))"
          using ps c3 c4 c5 eq nz en pn Inr po
          by (simp add: click_next_def st2_def [symmetric] marked_disabled_def Let_def)
        show ?thesis
        proof (cases changed)
          case False
          with rest cn have "r = Inr False" "st' = st7" by simp_all
          with False ch t7' len50 nz en cl ne show ?thesis by auto
        next
          case True
          obtain r8 st8 where c8: "call (scroll_to_top d) st7 = (r8, st8)"
            by (cases "call (scroll_to_top d) st7")
          have t8: "trace st8 = trace st7" using c8 by (rule trace_call)
          have "r \<noteq> Inr False \<and> trace st' = trace st7"
          proof (cases r8)
            case (Inl e)
            with rest cn True c8 show ?thesis using t8 by auto
          next
            case (Inr u8)
            obtain r9 st9 where c9: "wait_table_ready d 10000 st8 = (r9, st9)"
              by (cases "wait_table_ready d 10000 st8")
            have t9: "trace st9 = trace st8" using c9 by (rule trace_wait_table_ready)
            from rest cn True c8 Inr c9 show ?thesis using t8 t9
              by (cases r9) auto
          qed
          with True ch t7' len50 nz en cl ne show ?thesis by auto
        qed
      qed
    qed
  qed
qed

lemma signatures_append: "signatures (xs @ ys) = signatures xs @ signatures ys"
  by (induction xs rule: signatures.induct) simp_all

lemma signatures_map: "signatures (map Signature sigs) = sigs"
  by (induction sigs) simp_all

lemma signatures_clicks: "set evs \<subseteq> {Click, JsClick} \<Longrightarrow> signatures evs = []"
  by (induction evs rule: signatures.induct) simp_all

lemma set_signatures: "sig \<in> set (signatures evs) \<longleftrightarrow> Signature sig \<in> set evs"
  by (induction evs rule: signatures.induct) auto

lemma str_contains_iff: "str_contains sub s \<longleftrightarrow> (\<exists>pre post. s = pre @ sub @ post)"
proof (induction s)
  case Nil
  show ?case by auto
next
  case (Cons c cs)
  show ?case
  proof
    assume "str_contains sub (c # cs)"
    then consider "prefix sub (c # cs)" | "str_contains sub cs" by auto
    then show "\<exists>pre post. c # cs = pre @ sub @ post"
    proof cases
      case 1
      then obtain post where "c # cs = sub @ post" by (auto simp: prefix_def)
      then have "c # cs = [] @ sub @ post" by simp
      then show ?thesis by blast
    next
      case 2
      with Cons.IH obtain pre post where "cs = pre @ sub @ post" by blast
      then have "c # cs = (c # pre) @ sub @ post" by simp
      then show ?thesis by blast
    qed
  next
    assume "\<exists>pre post. c # cs = pre @ sub @ post"
    then obtain pre post where e: "c # cs = pre @ sub @ post" by blast
    show "str_contains sub (c # cs)"
    proof (cases pre)
      case Nil
      with e have "prefix sub (c # cs)" by (simp add: prefix_def)
      then show ?thesis by simp
    next
      case (Cons p pre')
      with e have "cs = pre' @ sub @ post" by simp
      with Cons.IH show ?thesis by auto
    qed
  qed
qed

lemma split_ws_contains: "w \<in> set (split_ws s) \<Longrightarrow> str_contains w s"
proof (induction s rule: split_ws.induct)
  case (1 s)
  define s' where "s' = dropWhile isspace s"
  have s: "s = takeWhile isspace s @ s'" by (simp add: s'_def)
  have s'': "s' = takeWhile (\<lambda>c. \<not> isspace c) s' @ dropWhile (\<lambda>c. \<not> isspace c) s'" by simp
  have ne: "s' \<noteq> []"
  proof
    assume "s' = []"
    then have "split_ws s = []" by (simp add: split_ws.simps [of s] s'_def)
    with "1.prems" show False by simp
  qed
  then have "split_ws s = takeWhile (\<lambda>c. \<not> isspace c) s'
      # split_ws (dropWhile (\<lambda>c. \<not> isspace c) s')"
    unfolding s'_def by (subst split_ws.simps) (simp add: Let_def)
  with "1.prems" consider "w = takeWhile (\<lambda>c. \<not> isspace c) s'"
    | "w \<in> set (split_ws (dropWhile (\<lambda>c. \<not> isspace c) s'))"
    by auto
  then show ?case
  proof cases
    case 1
    have "s = takeWhile isspace s @ w @ dropWhile (\<lambda>c. \<not> isspace c) s'"
      using s s'' 1 by metis
    then show ?thesis unfolding str_contains_iff by blast
  next
    case 2
    from "1.IH" [OF s'_def ne 2]
    obtain pre post where "dropWhile (\<lambda>c. \<not> isspace c) s' = pre @ w @ post"
      unfolding str_contains_iff by blast
    then have "s = (takeWhile isspace s @ takeWhile (\<lambda>c. \<not> isspace c) s' @ pre) @ w @ post"
      using s s'' by (metis append.assoc)
    then show ?thesis unfolding str_contains_iff by blast
  qed
qed

text \<open>
  Claim C7. \<open>click_next\<close> returns false, and between its call and its return the trace
  gains no click of either kind, whenever the next control is absent (the locator counts
  no element), or its class attribute, lowered, has the token \<open>disabled\<close> (or just
  contains these letters, which is what the source tests), or its aria-disabled
  attribute, lowered, is \<open>true\<close> or \<open>disabled\<close>.
\<close>

theorem click_next_terminal_without_click:
  assumes "click_next d st = (r, st')"
    and "next_control d st = (n, c, a)"
    and "n = 0
       \<or> ''disabled'' \<in> set (split_ws (lower (or_empty c)))
       \<or> str_contains ''disabled'' (lower (or_empty c))
       \<or> lower (or_empty a) \<in> {''true'', ''disabled''}"
  shows "r = Inr False
       \<and> (\<exists>evs. trace st' = trace st @ evs \<and> Click \<notin> set evs \<and> JsClick \<notin> set evs)"
proof -
  obtain prev st1 where ps: "page_signature d st = (prev, st1)"
    by (cases "page_signature d st")
  from assms(3) have "n = 0 \<or> marked_disabled c a"
    by (auto simp: marked_disabled_def dest: split_ws_contains)
  with click_next_shape [OF assms(1) assms(2) ps]
  consider "r = Inr False \<and> trace st' = trace st @ [Signature prev, Log NextNotFound]"
    | "r = Inr False \<and> trace st' = trace st @ [Signature prev, Log NextDisabled]"
    by auto
  then show ?thesis
  proof cases
    case 1
    then have "trace st' = trace st @ [Signature prev, Log NextNotFound]
        \<and> Click \<notin> set [Signature prev, Log NextNotFound]
        \<and> JsClick \<notin> set [Signature prev, Log NextNotFound]" by simp
    with 1 show ?thesis by blast
  next
    case 2
    then have "trace st' = trace st @ [Signature prev, Log NextDisabled]
        \<and> Click \<notin> set [Signature prev, Log NextDisabled]
        \<and> JsClick \<notin> set [Signature prev, Log NextDisabled]" by simp
    with 2 show ?thesis by blast
  qed
qed

text \<open>
  Claim C2. After the signature \<open>prev_sig\<close> that \<open>click_next\<close> computes first, the
  trace gains at most 50 further signatures, those of the polling loop. If the call
  returns true, one of them is neither empty nor equal to \<open>prev_sig\<close>; so an empty
  \<open>prev_sig\<close> does not make an empty signature count as a change. If the click went
  through and every signature of the polling loop is empty or equal to \<open>prev_sig\<close>,
  the call returns false.
\<close>

theorem click_next_true_only_on_change:
  assumes "click_next d st = (r, st')"
    and "page_signature d st = (prev_sig, st1)"
  shows "\<exists>evs. trace st' = trace st @ Signature prev_sig # evs
       \<and> length (signatures evs) \<le> 50
       \<and> (r = Inr True \<longrightarrow>
            (\<exists>sig \<in> set (signatures evs). sig \<noteq> [] \<and> sig \<noteq> prev_sig))
       \<and> (Log ClickedNext \<in> set evs
            \<and> (\<forall>sig \<in> set (signatures evs). sig = [] \<or> sig = prev_sig)
          \<longrightarrow> r = Inr False)"
proof -
  obtain n c a where nc: "next_control d st = (n, c, a)"
    by (cases "next_control d st") auto
  from click_next_shape [OF assms(1) nc assms(2)]
  consider (early) msg where "r = Inr False" "trace st' = trace st @ [Signature prev_sig, Log msg]"
      "msg = NextNotFound \<or> msg = NextDisabled"
    | (raised) clicks e where "set clicks \<subseteq> {Click, JsClick}" "r = Inl e"
        "trace st' = trace st @ Signature prev_sig # clicks"
    | (polled) clicks sigs where "set clicks \<subseteq> {Click, JsClick}"
        "trace st' = trace st @ Signature prev_sig # clicks @ Log ClickedNext # map Signature sigs"
        "length sigs \<le> 50"
        "if \<exists>sig \<in> set sigs. sig \<noteq> [] \<and> sig \<noteq> prev_sig then r \<noteq> Inr False else r = Inr False"
    by blast
  then show ?thesis
  proof cases
    case early
    then show ?thesis by (intro exI [of _ "[Log msg]"]) auto
  next
    case raised
    have "signatures clicks = []" using raised(1) by (rule signatures_clicks)
    moreover have "Log ClickedNext \<notin> set clicks" using raised(1) by auto
    ultimately show ?thesis using raised by (intro exI [of _ clicks]) auto
  next
    case polled
    have s: "signatures (clicks @ Log ClickedNext # map Signature sigs) = sigs"
      using signatures_clicks [OF polled(1)] by (simp add: signatures_append signatures_map)
    define evs where "evs = clicks @ Log ClickedNext # map Signature sigs"
    have "trace st' = trace st @ Signature prev_sig # evs"
      using polled(2) by (simp add: evs_def)
    moreover have "signatures evs = sigs" using s by (simp add: evs_def)
    moreover have "r = Inr True \<longrightarrow> (\<exists>sig \<in> set sigs. sig \<noteq> [] \<and> sig \<noteq> prev_sig)"
      using polled(4) by (auto split: if_splits)
    moreover have "(\<forall>sig \<in> set sigs. sig = [] \<or> sig = prev_sig) \<longrightarrow> r = Inr False"
      using polled(4) by (auto split: if_splits)
    ultimately show ?thesis using polled(3) by (intro exI [of _ evs]) simp
  qed
qed

lemma portal_calls:
  "call (goto_start portal) \<lparr>world = w, trace = tr\<rparr> = (Inr (), \<lparr>world = w, trace = tr\<rparr>)"
  "call (row_link_count portal) \<lparr>world = w, trace = tr\<rparr>
     = (length (portal_rows (fst w)), \<lparr>world = w, trace = tr\<rparr>)"
  "call (mouse_wheel portal) \<lparr>world = w, trace = tr\<rparr> = (Inr (), \<lparr>world = w, trace = tr\<rparr>)"
  "call (wait_for_tbody portal) \<lparr>world = w, trace = tr\<rparr> = (Inr (), \<lparr>world = w, trace = tr\<rparr>)"
  "call (row_hrefs portal) \<lparr>world = w, trace = tr\<rparr>
     = (map fst (portal_rows (fst w)), \<lparr>world = w, trace = tr\<rparr>)"
  "call (row_items portal) \<lparr>world = w, trace = tr\<rparr>
     = (portal_rows (fst w), \<lparr>world = w, trace = tr\<rparr>)"
  "call (scroll_to_bottom portal) \<lparr>world = w, trace = tr\<rparr> = (Inr (), \<lparr>world = w, trace = tr\<rparr>)"
  "call (scroll_to_top portal) \<lparr>world = w, trace = tr\<rparr> = (Inr (), \<lparr>world = w, trace = tr\<rparr>)"
  "call (next_count portal) \<lparr>world = w, trace = tr\<rparr> = (1, \<lparr>world = w, trace = tr\<rparr>)"
  "call (next_class portal) \<lparr>world = w, trace = tr\<rparr>
     = (Some (if fst w = 0 then ''pagination-next'' else ''pagination-next disabled''),
        \<lparr>world = w, trace = tr\<rparr>)"
  "call (next_aria_disabled portal) \<lparr>world = w, trace = tr\<rparr> = (None, \<lparr>world = w, trace = tr\<rparr>)"
  "call (next_scroll_into_view portal) \<lparr>world = w, trace = tr\<rparr>
     = (Inr (), \<lparr>world = w, trace = tr\<rparr>)"
  "call (next_click portal) \<lparr>world = w, trace = tr\<rparr>
     = (Inr (), \<lparr>world = (Suc (fst w), snd w), trace = tr\<rparr>)"
  "call (new_page portal) \<lparr>world = w, trace = tr\<rparr> = (Inr (), \<lparr>world = w, trace = tr\<rparr>)"
  "call (detail_goto portal url) \<lparr>world = w, trace = tr\<rparr>
     = (Inr (), \<lparr>world = (fst w, url), trace = tr\<rparr>)"
  "call (wait_for_marker portal) \<lparr>world = w, trace = tr\<rparr>
     = (Inl PWTimeout, \<lparr>world = w, trace = tr\<rparr>)"
  "call (wait_for_contract_text portal) \<lparr>world = w, trace = tr\<rparr>
     = (Inr (), \<lparr>world = w, trace = tr\<rparr>)"
  "call (page_marker_count portal) \<lparr>world = w, trace = tr\<rparr> = (0, \<lparr>world = w, trace = tr\<rparr>)"
  "other_frames portal w = []"
  "call (inner_text_contract portal c) \<lparr>world = w, trace = tr\<rparr>
     = (Inl PWTimeout, \<lparr>world = w, trace = tr\<rparr>)"
  "call (content_text portal c) \<lparr>world = w, trace = tr\<rparr>
     = (portal_text (snd w), \<lparr>world = w, trace = tr\<rparr>)"
  "call (close_page portal) \<lparr>world = w, trace = tr\<rparr> = (Inr (), \<lparr>world = w, trace = tr\<rparr>)"
  "pause portal ms \<lparr>world = w, trace = tr\<rparr> = \<lparr>world = w, trace = tr\<rparr>"
  "page_url portal w = ''https://portal/#/palmeira/portal/compras/contratoTable''"
  "emit ev \<lparr>world = w, trace = tr\<rparr> = \<lparr>world = w, trace = tr @ [ev]\<rparr>"
  by (simp_all add: call_def pause_def emit_def portal_def)

lemma portal_sigs:
  "join ''|'' (filter (str_contains DETAIL_URL_PART) (map fst (portal_rows 0)))
     = ''#/palmeira/portal/compras/contratoView/1|#/palmeira/portal/compras/contratoView/2|#/palmeira/portal/compras/contratoView/1|#/palmeira/portal/compras/contratoView/3''"
  "join ''|'' (filter (str_contains DETAIL_URL_PART) (map fst (portal_rows (Suc p))))
     = ''#/palmeira/portal/compras/contratoView/4''"
  by (simp_all add: portal_rows_def DETAIL_URL_PART_def)

lemma portal_page_signature:
  "page_signature portal \<lparr>world = (p, u), trace = tr\<rparr> =
     (join ''|'' (filter (str_contains DETAIL_URL_PART) (map fst (portal_rows p))),
      \<lparr>world = (p, u),
       trace = tr @ [Signature (join ''|'' (filter (str_contains DETAIL_URL_PART)
                                                 (map fst (portal_rows p))))]\<rparr>)"
  by (simp add: page_signature_def portal_calls Let_def)

lemma portal_wait_table_ready:
  "wait_table_ready portal 10000 \<lparr>world = (p, u), trace = tr\<rparr>
     = (Inr (), \<lparr>world = (p, u), trace = tr\<rparr>)"
proof -
  have "0 < length (portal_rows p)" by (simp add: portal_rows_def)
  then have "wait_rows portal 10000 0 \<lparr>world = (p, u), trace = tr\<rparr>
      = (True, \<lparr>world = (p, u), trace = tr\<rparr>)"
    by (simp add: wait_rows.simps [of portal 10000 0] portal_calls)
  then show ?thesis by (simp add: wait_table_ready_def)
qed

theorem click_next_true_only_on_change_witness:
  "click_next portal portal_start =
     (Inr True,
      \<lparr>world = (Suc 0, []),
       trace = [Signature ''#/palmeira/portal/compras/contratoView/1|#/palmeira/portal/compras/contratoView/2|#/palmeira/portal/compras/contratoView/1|#/palmeira/portal/compras/contratoView/3'',
                Click, Log ClickedNext,
                Signature ''#/palmeira/portal/compras/contratoView/4'']\<rparr>)
   \<and> (\<exists>sig \<in> set (signatures [Click, Log ClickedNext,
                                Signature ''#/palmeira/portal/compras/contratoView/4'']).
         sig \<noteq> [] \<and> sig \<noteq> ''#/palmeira/portal/compras/contratoView/1|#/palmeira/portal/compras/contratoView/2|#/palmeira/portal/compras/contratoView/1|#/palmeira/portal/compras/contratoView/3'')"
proof -
  have p: "page_signature portal portal_start =
      (''#/palmeira/portal/compras/contratoView/1|#/palmeira/portal/compras/contratoView/2|#/palmeira/portal/compras/contratoView/1|#/palmeira/portal/compras/contratoView/3'',
       \<lparr>world = (0, []), trace = [Signature ''#/palmeira/portal/compras/contratoView/1|#/palmeira/portal/compras/contratoView/2|#/palmeira/portal/compras/contratoView/1|#/palmeira/portal/compras/contratoView/3'']\<rparr>)"
    by (simp add: portal_start_def portal_page_signature portal_sigs)
  have q: "poll_signature portal ''#/palmeira/portal/compras/contratoView/1|#/palmeira/portal/compras/contratoView/2|#/palmeira/portal/compras/contratoView/1|#/palmeira/portal/compras/contratoView/3'' 0
             \<lparr>world = (Suc 0, []), trace = tr\<rparr>
      = (True, \<lparr>world = (Suc 0, []),
                trace = tr @ [Signature ''#/palmeira/portal/compras/contratoView/4'']\<rparr>)" for tr
    by (simp add: poll_signature.simps [of portal _ 0] portal_page_signature portal_sigs)
  have e: "click_next portal portal_start =
     (Inr True,
      \<lparr>world = (Suc 0, []),
       trace = [Signature ''#/palmeira/portal/compras/contratoView/1|#/palmeira/portal/compras/contratoView/2|#/palmeira/portal/compras/contratoView/1|#/palmeira/portal/compras/contratoView/3'',
                Click, Log ClickedNext,
                Signature ''#/palmeira/portal/compras/contratoView/4'']\<rparr>)"
    unfolding click_next_def p
    by (simp add: q portal_wait_table_ready portal_calls press_next_def or_empty_def lower_def
          lower_char_def)
  from click_next_true_only_on_change [OF e p] show ?thesis
    using e by simp
qed

theorem click_next_terminal_without_click_witness:
  "next_control portal \<lparr>world = (Suc 0, []), trace = []\<rparr>
     = (1, Some ''pagination-next disabled'', None)
   \<and> ''disabled'' \<in> set (split_ws (lower ''pagination-next disabled''))
   \<and> click_next portal \<lparr>world = (Suc 0, []), trace = []\<rparr> =
       (Inr False, \<lparr>world = (Suc 0, []),
                    trace = [Signature ''#/palmeira/portal/compras/contratoView/4'',
                             Log NextDisabled]\<rparr>)"
proof -
  have n: "next_control portal \<lparr>world = (Suc 0, []), trace = []\<rparr>
      = (1, Some ''pagination-next disabled'', None)"
    by (simp add: next_control_def portal_page_signature portal_calls)
  have t: "''disabled'' \<in> set (split_ws (lower ''pagination-next disabled''))"
    by (simp add: split_ws.simps lower_def lower_char_def isspace_def)
  have e: "click_next portal \<lparr>world = (Suc 0, []), trace = []\<rparr> =
       (Inr False, \<lparr>world = (Suc 0, []),
                    trace = [Signature ''#/palmeira/portal/compras/contratoView/4'',
                             Log NextDisabled]\<rparr>)"
    unfolding click_next_def portal_page_signature
    by (simp add: portal_calls portal_sigs or_empty_def lower_def lower_char_def)
  from click_next_terminal_without_click [OF e n] t show ?thesis
    using n e by (simp add: or_empty_def)
qed

section \<open>The Crawl Orchestrator: rows, stash and visited set\<close>

lemma re_search_Some: "re_search m t = Some g \<Longrightarrow> \<exists>s. m s = Some g"
  by (induction t) (auto split: option.splits)

lemma match_contract_length: "match_contract s = Some tok \<Longrightarrow> 3 \<le> length tok"
  by (auto simp: match_contract_def Let_def split: option.splits if_splits)

lemma match_amount_nonempty: "match_amount s = Some tok \<Longrightarrow> tok \<noteq> []"
  by (auto simp: match_amount_def Let_def split: option.splits if_splits)

lemma extract_text_truthy:
  "truthy (contract (extract_text t)) \<longleftrightarrow> contract (extract_text t) \<noteq> None"
  "truthy (amount (extract_text t)) \<longleftrightarrow> amount (extract_text t) \<noteq> None"
proof -
  show "truthy (contract (extract_text t)) \<longleftrightarrow> contract (extract_text t) \<noteq> None"
    by (auto simp: truthy_def extract_text_def Let_def split: option.splits
          dest!: re_search_Some match_contract_length)
  show "truthy (amount (extract_text t)) \<longleftrightarrow> amount (extract_text t) \<noteq> None"
    by (auto simp: truthy_def extract_text_def Let_def split: option.splits
          dest!: re_search_Some match_amount_nonempty)
qed

lemma trace_scan_frames: "scan_frames d frs st = (c, st') \<Longrightarrow> trace st' = trace st"
proof (induction frs arbitrary: st)
  case Nil
  then show ?case by simp
next
  case (Cons fr frs)
  obtain r st1 where c1: "call (frame_marker_count d fr) st = (r, st1)"
    by (cases "call (frame_marker_count d fr) st")
  have t1: "trace st1 = trace st" using c1 by (rule trace_call)
  from Cons.prems c1 consider "st' = st1" | "scan_frames d frs st1 = (c, st')"
    by (auto split: sum.splits if_splits)
  then show ?case using t1 Cons.IH by cases auto
qed

lemma trace_pick_ctx: "pick_ctx d st = (c, st') \<Longrightarrow> trace st' = trace st"
proof -
  assume a: "pick_ctx d st = (c, st')"
  obtain n st1 where c1: "call (page_marker_count d) st = (n, st1)"
    by (cases "call (page_marker_count d) st")
  have t1: "trace st1 = trace st" using c1 by (rule trace_call)
  from a c1 consider "st' = st1" | "scan_frames d (other_frames d (world st1)) st1 = (c, st')"
    by (auto simp: pick_ctx_def split: if_splits)
  then show ?thesis using t1 by cases (auto dest: trace_scan_frames)
qed

lemma fallback_tier_result:
  "fallback_tier d c st = (r, st') \<Longrightarrow> trace st' = trace st \<and> (\<exists>t. r = Inr (extract_text t))"
  by (auto simp: fallback_tier_def split: prod.splits dest: trace_call)

lemma extract_from_context_result:
  assumes "extract_from_context d c st = (r, st')"
  shows "trace st' = trace st \<and> (\<forall>dd. r = Inr dd \<longrightarrow> (\<exists>t. dd = extract_text t))"
proof -
  obtain r1 st1 where c1: "call (inner_text_contract d c) st = (r1, st1)"
    by (cases "call (inner_text_contract d c) st")
  have t1: "trace st1 = trace st" using c1 by (rule trace_call)
  show ?thesis
  proof (cases r1)
    case (Inl e)
    show ?thesis
    proof (cases e)
      case PWTimeout
      with Inl c1 assms have "fallback_tier d c st1 = (r, st')"
        by (simp add: extract_from_context_def)
      from fallback_tier_result [OF this] t1 show ?thesis by auto
    next
      case DriverError
      with Inl c1 assms have "r = Inl DriverError" "st' = st1"
        by (simp_all add: extract_from_context_def)
      with t1 show ?thesis by simp
    qed
  next
    case (Inr ct)
    obtain r2 st2 where c2: "call (inner_text_valor d c) st1 = (r2, st2)"
      by (cases "call (inner_text_valor d c) st1")
    have t2: "trace st2 = trace st" using c2 t1 by (simp add: trace_call)
    show ?thesis
    proof (cases r2)
      case e2: (Inl e)
      show ?thesis
      proof (cases e)
        case PWTimeout
        with e2 Inr c1 c2 assms have "fallback_tier d c st2 = (r, st')"
          by (simp add: extract_from_context_def)
        from fallback_tier_result [OF this] t2 show ?thesis by auto
      next
        case DriverError
        with e2 Inr c1 c2 assms have "r = Inl DriverError" "st' = st2"
          by (simp_all add: extract_from_context_def)
        with t2 show ?thesis by simp
      qed
    next
      case v: (Inr vt)
      define dd where "dd = extract_text (ct @ '' '' @ vt)"
      have eq: "extract_from_context d c st =
          (if truthy (contract dd) \<and> truthy (amount dd) then (Inr dd, st2)
           else fallback_tier d c st2)"
        using c1 c2 Inr v by (simp add: extract_from_context_def dd_def Let_def)
      show ?thesis
      proof (cases "truthy (contract dd) \<and> truthy (amount dd)")
        case True
        with eq assms have "r = Inr dd" "st' = st2" by simp_all
        with t2 show ?thesis unfolding dd_def by blast
      next
        case False
        with eq assms have "fallback_tier d c st2 = (r, st')" by auto
        from fallback_tier_result [OF this] t2 show ?thesis by auto
      qed
    qed
  qed
qed

lemma detail_body_result:
  assumes "detail_body d url st = (r, st')"
  shows "trace st' = trace st \<and> (\<forall>dd. r = Inr dd \<longrightarrow> (\<exists>t. dd = extract_text t))"
proof -
  obtain r1 st1 where c1: "call (detail_goto d url) st = (r1, st1)"
    by (cases "call (detail_goto d url) st")
  have t1: "trace st1 = trace st" using c1 by (rule trace_call)
  define settle where "settle = (case call (wait_for_marker d) st1 of
                   (Inl PWTimeout, st2) \<Rightarrow>
                     (case call (wait_for_contract_text d) st2 of
                        (Inl PWTimeout, st3) \<Rightarrow> (Inr (), st3)
                      | (Inl DriverError, st3) \<Rightarrow> (Inl DriverError, st3)
                      | (Inr u, st3) \<Rightarrow> (Inr (), st3))
                 | (Inl DriverError, st2) \<Rightarrow> (Inl DriverError, st2)
                 | (Inr u, st2) \<Rightarrow> (Inr (), st2))"
  obtain r4 st4 where s4: "settle = (r4, st4)" by (cases settle)
  have t4: "trace st4 = trace st1"
    using s4 unfolding settle_def
    by (auto split: prod.splits sum.splits error.splits dest!: trace_call)
  obtain cx st5 where p5: "pick_ctx d st4 = (cx, st5)" by (cases "pick_ctx d st4")
  have t5: "trace st5 = trace st" using p5 t4 t1 by (simp add: trace_pick_ctx)
  from assms c1 s4 p5
  consider e where "r = Inl e" "st' = st1" | e where "r = Inl e" "st' = st4"
    | "extract_from_context d cx st5 = (r, st')"
    by (auto simp: detail_body_def settle_def [symmetric] split: sum.splits)
  then show ?thesis
    using t1 t4 t5 by cases (auto dest: extract_from_context_result)
qed

lemma open_details_and_extract_result:
  assumes "open_details_and_extract d href st = (r, st')"
  shows "trace st' = trace st @ [Fetch href]
       \<and> (\<forall>dd. r = Inr dd \<longrightarrow> (\<exists>t. dd = extract_text t))"
proof -
  define st0 where "st0 = emit (Fetch href) st"
  have t0: "trace st0 = trace st @ [Fetch href]" by (simp add: st0_def trace_emit)
  obtain r1 st1 where c1: "call (new_page d) st0 = (r1, st1)"
    by (cases "call (new_page d) st0")
  have t1: "trace st1 = trace st0" using c1 by (rule trace_call)
  obtain r2 st2 where b: "detail_body d (make_abs_url (page_url d (world st0)) href) st1 = (r2, st2)"
    by (cases "detail_body d (make_abs_url (page_url d (world st0)) href) st1")
  obtain r3 st3 where c3: "call (close_page d) st2 = (r3, st3)"
    by (cases "call (close_page d) st2")
  have t3: "trace st3 = trace st0"
    using trace_call [OF c3] detail_body_result [OF b] t1 by simp
  from assms c1 b c3
  consider e where "r = Inl e" "st' = st1" | e where "r = Inl e" "st' = st3"
    | "r = r2" "st' = st3"
    by (auto simp: open_details_and_extract_def Let_def st0_def [symmetric] split: sum.splits)
  then show ?thesis
    using t0 t1 t3 detail_body_result [OF b] by cases auto
qed

lemma fetched_append: "fetched (xs @ ys) = fetched xs @ fetched ys"
  by (induction xs rule: fetched.induct) simp_all

lemma process_row_cases:
  assumes o: "open_details_and_extract d href (emit (Log (ClickingRow idx row_text)) st)
                = (outcome, st1)"
  shows "process_row d idx href row_text stash visited st =
     (case outcome of
        Inl e \<Rightarrow> (Inl e, stash, insert href visited, st1)
      | Inr details \<Rightarrow>
          if complete details
          then (Inr (), stash @ [details], insert href visited,
                emit (Log (Extracted details)) st1)
          else (Inr (), stash, insert href visited, emit (Log (FailedToExtract href)) st1))"
proof (cases outcome)
  case (Inl e)
  with o show ?thesis by (simp add: process_row_def)
next
  case (Inr details)
  from open_details_and_extract_result [OF o] Inr obtain t where "details = extract_text t"
    by blast
  then have "(truthy (contract details) \<and> truthy (amount details)) = complete details"
    by (simp add: extract_text_truthy complete_def)
  with o Inr show ?thesis by (simp add: process_row_def)
qed

text \<open>
  Claim C8. After the processing of one row, the stash is the stash before with the
  row's record appended if the Detail Fetcher returned a record whose contract and
  amount are both non-null, and the stash before otherwise; in the latter case, when
  a record was returned, the warning naming the row's token is the last thing logged.
  A stash of complete records stays one.
\<close>

theorem process_row_stash:
  assumes "process_row d idx href row_text stash visited st = (r, stash', visited', st')"
    and "open_details_and_extract d href (emit (Log (ClickingRow idx row_text)) st)
           = (outcome, st1)"
  shows "stash' = (case outcome of
                     Inl e \<Rightarrow> stash
                   | Inr details \<Rightarrow> if contract details \<noteq> None \<and> amount details \<noteq> None
                                    then stash @ [details] else stash)
       \<and> (\<forall>details. outcome = Inr details
                     \<and> (contract details = None \<or> amount details = None)
            \<longrightarrow> trace st' = trace st1 @ [Log (FailedToExtract href)])
       \<and> ((\<forall>x \<in> set stash. contract x \<noteq> None \<and> amount x \<noteq> None)
            \<longrightarrow> (\<forall>x \<in> set stash'. contract x \<noteq> None \<and> amount x \<noteq> None))"
  using assms(1) unfolding process_row_cases [OF assms(2)]
  by (cases outcome) (auto simp: complete_def trace_emit split: if_splits)

lemma process_row_visited:
  "process_row d idx href row_text stash visited st = (r, stash', visited', st')
   \<Longrightarrow> visited' = insert href visited \<and> fetched (trace st') = fetched (trace st) @ [href]"
proof -
  assume a: "process_row d idx href row_text stash visited st = (r, stash', visited', st')"
  obtain outcome st1
    where o: "open_details_and_extract d href (emit (Log (ClickingRow idx row_text)) st)
                = (outcome, st1)"
    by (cases "open_details_and_extract d href (emit (Log (ClickingRow idx row_text)) st)")
  from open_details_and_extract_result [OF o]
  have t1: "fetched (trace st1) = fetched (trace st) @ [href]"
    by (simp add: trace_emit fetched_append)
  from a show ?thesis unfolding process_row_cases [OF o]
    using t1 by (cases outcome) (auto simp: trace_emit fetched_append split: if_splits)
qed

lemma process_rows_visited:
  "process_rows d idx rows stash visited st = (r, stash', visited', st') \<Longrightarrow>
   \<exists>got. prefix got (map fst rows)
         \<and> visited' = visited \<union> set got
         \<and> fetched (trace st') = fetched (trace st) @ got
         \<and> (r = Inr () \<longrightarrow> got = map fst rows)"
proof (induction rows arbitrary: idx stash visited st)
  case Nil
  then show ?case by (intro exI [of _ "[]"]) auto
next
  case (Cons row rows)
  obtain href row_text where row: "row = (href, row_text)" by (cases row)
  obtain r1 stash1 visited1 st1
    where p: "process_row d idx href row_text stash visited st = (r1, stash1, visited1, st1)"
    by (cases "process_row d idx href row_text stash visited st") auto
  from process_row_visited [OF p]
  have v1: "visited1 = insert href visited"
    and f1: "fetched (trace st1) = fetched (trace st) @ [href]" by simp_all
  show ?case
  proof (cases r1)
    case (Inl e)
    with Cons.prems p row have "r = Inl e" "visited' = visited1" "st' = st1" by simp_all
    with v1 f1 row show ?thesis by (intro exI [of _ "[href]"]) auto
  next
    case (Inr u)
    with Cons.prems p row
    have "process_rows d (idx + 1) rows stash1 visited1 st1 = (r, stash', visited', st')"
      by simp
    from Cons.IH [OF this] obtain got where d: "prefix got (map fst rows)"
      "visited' = visited1 \<union> set got" "fetched (trace st') = fetched (trace st1) @ got"
      "r = Inr () \<longrightarrow> got = map fst rows"
      by blast
    with v1 f1 row show ?thesis by (intro exI [of _ "href # got"]) auto
  qed
qed

lemma collect_loop_new:
  "distinct (map fst (collect_loop items visited {} []))
   \<and> fst ` set (collect_loop items visited {} []) \<inter> visited = {}"
proof -
  have g: "distinct (map fst (collect_loop items visited seen out))
      \<and> fst ` set (collect_loop items visited seen out) \<inter> visited = {}"
    if "distinct (map fst out)" "fst ` set out \<subseteq> seen" "fst ` set out \<inter> visited = {}"
    for seen out
    using that
  proof (induction items arbitrary: seen out)
    case Nil
    then show ?case by simp
  next
    case (Cons it items)
    obtain h t where it: "it = (h, t)" by (cases it)
    show ?case
    proof (cases "h = [] \<or> \<not> str_contains DETAIL_URL_PART h \<or> h \<in> visited \<or> h \<in> seen")
      case True
      then have "collect_loop (it # items) visited seen out = collect_loop items visited seen out"
        by (auto simp: it)
      with Cons.IH [OF Cons.prems] show ?thesis by simp
    next
      case False
      then have e: "collect_loop (it # items) visited seen out
          = collect_loop items visited (insert h seen) (out @ [(h, t)])"
        by (auto simp: it)
      have "distinct (map fst (out @ [(h, t)]))" using Cons.prems False by auto
      moreover have "fst ` set (out @ [(h, t)]) \<subseteq> insert h seen" using Cons.prems by auto
      moreover have "fst ` set (out @ [(h, t)]) \<inter> visited = {}" using Cons.prems False by auto
      ultimately show ?thesis unfolding e by (rule Cons.IH)
    qed
  qed
  show ?thesis by (rule g) simp_all
qed

lemma collect_rows_new:
  "collect_rows d visited st = (rows, st') \<Longrightarrow>
   distinct (map fst rows) \<and> fst ` set rows \<inter> visited = {} \<and> trace st' = trace st"
  using collect_loop_new [of items visited for items]
  by (auto simp: collect_rows_def split: prod.splits dest: trace_call)

lemma process_rows_fetched_once:
  assumes "process_rows d idx rows stash visited st = (r, stash', visited', st')"
    and "fetched_once visited st" and "distinct (map fst rows)"
    and "fst ` set rows \<inter> visited = {}"
  shows "fetched_once visited' st'"
proof -
  from process_rows_visited [OF assms(1)] obtain got
    where d: "prefix got (map fst rows)" "visited' = visited \<union> set got"
      "fetched (trace st') = fetched (trace st) @ got"
    by blast
  from d(1) obtain rest where r: "map fst rows = got @ rest" by (auto simp: prefix_def)
  have "distinct got" using assms(3) r by (metis distinct_append)
  moreover have "set got \<subseteq> fst ` set rows" using r by (metis set_map set_append Un_upper1)
  ultimately show ?thesis
    using assms(2,4) d(2,3) by (auto simp: fetched_once_def)
qed

lemma process_current_table_fetched_once:
  assumes "process_current_table d stash visited st = (r, stash', visited', st')"
    and "fetched_once visited st"
  shows "fetched_once visited' st'"
proof -
  obtain r1 st1 where w: "wait_table_ready d 10000 st = (r1, st1)"
    by (cases "wait_table_ready d 10000 st")
  have t1: "trace st1 = trace st" using w by (rule trace_wait_table_ready)
  show ?thesis
  proof (cases r1)
    case (Inl e)
    with assms(1) w have "visited' = visited" "st' = st1"
      by (simp_all add: process_current_table_def)
    with assms(2) t1 show ?thesis by (simp add: fetched_once_def)
  next
    case (Inr u)
    obtain rows st2 where c: "collect_rows d visited st1 = (rows, st2)"
      by (cases "collect_rows d visited st1")
    from collect_rows_new [OF c]
    have n: "distinct (map fst rows)" "fst ` set rows \<inter> visited = {}" "trace st2 = trace st1"
      by simp_all
    show ?thesis
    proof (cases "rows = []")
      case True
      with assms(1) w Inr c have "visited' = visited" "st' = st2"
        by (simp_all add: process_current_table_def)
      with assms(2) t1 n(3) show ?thesis by (simp add: fetched_once_def)
    next
      case False
      with assms(1) w Inr c
      have p: "process_rows d 1 rows stash visited (emit (Log (FoundRows (length rows))) st2)
          = (r, stash', visited', st')"
        by (simp add: process_current_table_def)
      have "fetched_once visited (emit (Log (FoundRows (length rows))) st2)"
        using assms(2) t1 n(3) by (simp add: fetched_once_def trace_emit fetched_append)
      from process_rows_fetched_once [OF p this n(1) n(2)] show ?thesis .
    qed
  qed
qed

lemma process_current_table_visited_mono:
  assumes "process_current_table d stash visited st = (r, stash', visited', st')"
  shows "visited \<subseteq> visited'"
proof -
  obtain r1 st1 where w: "wait_table_ready d 10000 st = (r1, st1)"
    by (cases "wait_table_ready d 10000 st")
  show ?thesis
  proof (cases r1)
    case (Inl e)
    with assms w show ?thesis by (simp add: process_current_table_def)
  next
    case (Inr u)
    obtain rows st2 where c: "collect_rows d visited st1 = (rows, st2)"
      by (cases "collect_rows d visited st1")
    show ?thesis
    proof (cases "rows = []")
      case True
      with assms w Inr c show ?thesis by (simp add: process_current_table_def)
    next
      case False
      with assms w Inr c
      have p: "process_rows d 1 rows stash visited (emit (Log (FoundRows (length rows))) st2)
          = (r, stash', visited', st')"
        by (simp add: process_current_table_def)
      from process_rows_visited [OF p] show ?thesis by auto
    qed
  qed
qed

lemma fetched_signatures_only:
  "trace st' = trace st @ evs \<Longrightarrow> fetched evs = [] \<Longrightarrow> fetched (trace st') = fetched (trace st)"
  by (simp add: fetched_append)

lemma fetched_map_Signature: "fetched (map Signature sigs) = []"
  by (induction sigs) simp_all

lemma fetched_clicks: "set evs \<subseteq> {Click, JsClick} \<Longrightarrow> fetched evs = []"
  by (induction evs rule: fetched.induct) simp_all

lemma click_next_fetched:
  assumes "click_next d st = (r, st')"
  shows "fetched (trace st') = fetched (trace st)"
proof -
  obtain n c a where nc: "next_control d st = (n, c, a)"
    by (cases "next_control d st") auto
  obtain prev st1 where ps: "page_signature d st = (prev, st1)"
    by (cases "page_signature d st")
  from click_next_shape [OF assms nc ps]
  consider "trace st' = trace st @ [Signature prev, Log NextNotFound]"
    | "trace st' = trace st @ [Signature prev, Log NextDisabled]"
    | clicks where "set clicks \<subseteq> {Click, JsClick}"
        "trace st' = trace st @ Signature prev # clicks"
    | clicks sigs where "set clicks \<subseteq> {Click, JsClick}"
        "trace st' = trace st @ Signature prev # clicks @ Log ClickedNext # map Signature sigs"
    by blast
  then show ?thesis
    by cases (simp_all add: fetched_append fetched_clicks fetched_map_Signature)
qed

lemma scrape_loop_fetched_once:
  "scrape_loop d fuel page_idx stash visited st = (r, stash', visited', st') \<Longrightarrow>
   fetched_once visited st \<Longrightarrow> fetched_once visited' st'"
proof (induction fuel arbitrary: page_idx stash visited st)
  case 0
  then show ?case by simp
next
  case (Suc fuel)
  obtain r1 stash1 visited1 st1
    where p: "process_current_table d stash visited (emit (Log (ProcessingPage page_idx)) st)
               = (r1, stash1, visited1, st1)"
    by (cases "process_current_table d stash visited (emit (Log (ProcessingPage page_idx)) st)")
       auto
  have "fetched_once visited (emit (Log (ProcessingPage page_idx)) st)"
    using Suc.prems(2) by (simp add: fetched_once_def trace_emit fetched_append)
  from process_current_table_fetched_once [OF p this]
  have i1: "fetched_once visited1 st1" .
  show ?case
  proof (cases r1)
    case (Inl e)
    with Suc.prems(1) p have "visited' = visited1" "st' = st1" by simp_all
    with i1 show ?thesis by simp
  next
    case (Inr u)
    obtain r2 st2 where c: "click_next d st1 = (r2, st2)" by (cases "click_next d st1")
    have i2: "fetched_once visited1 st2"
      using i1 click_next_fetched [OF c] by (simp add: fetched_once_def)
    show ?thesis
    proof (cases r2)
      case e: (Inl e)
      with Suc.prems(1) p Inr c have "visited' = visited1" "st' = st2" by simp_all
      with i2 show ?thesis by simp
    next
      case b: (Inr changed)
      show ?thesis
      proof (cases changed)
        case False
        with Suc.prems(1) p Inr c b
        have "visited' = visited1" "st' = emit (Log NoMorePages) st2" by simp_all
        with i2 show ?thesis by (simp add: fetched_once_def trace_emit fetched_append)
      next
        case True
        with Suc.prems(1) p Inr c b
        have "scrape_loop d fuel (page_idx + 1) stash1 visited1 st2 = (r, stash', visited', st')"
          by simp
        from Suc.IH [OF this i2] show ?thesis .
      qed
    qed
  qed
qed

text \<open>
  Claim C1. In every run of \<open>scrape\<close>, however many pages it processes and however it
  ends (also by an exception, and at every point of a run that does not end), the
  tokens handed to the Detail Fetcher are pairwise different.
\<close>

theorem scrape_fetches_each_token_once:
  "distinct (fetched (trace (snd (snd (snd (scrape d fuel w))))))"
proof -
  define st where "st = emit (Log Navigating)
      (emit (Log StartingScraper) \<lparr>world = w, trace = []\<rparr>)"
  have f0: "fetched (trace st) = []" by (simp add: st_def emit_def)
  obtain r1 st1 where g: "call (goto_start d) st = (r1, st1)" by (cases "call (goto_start d) st")
  have f1: "fetched (trace st1) = []" using trace_call [OF g] f0 by simp
  show ?thesis
  proof (cases r1)
    case (Inl e)
    with g have "scrape d fuel w = (Some (Inl e), [], {}, st1)"
      by (simp add: scrape_def st_def [symmetric])
    with f1 show ?thesis by simp
  next
    case (Inr u)
    with g have e: "scrape d fuel w = scrape_loop d fuel 1 [] {} (emit (Log LoadedInitial) st1)"
      by (simp add: scrape_def st_def [symmetric])
    obtain r stash visited st' where l:
      "scrape_loop d fuel 1 [] {} (emit (Log LoadedInitial) st1) = (r, stash, visited, st')"
      by (cases "scrape_loop d fuel 1 [] {} (emit (Log LoadedInitial) st1)") auto
    have "fetched_once {} (emit (Log LoadedInitial) st1)"
      using f1 by (simp add: fetched_once_def trace_emit fetched_append)
    from scrape_loop_fetched_once [OF l this] have "distinct (fetched (trace st'))"
      by (simp add: fetched_once_def)
    then show ?thesis unfolding e l by simp
  qed
qed

section \<open>The engine on the small portal\<close>

lemma re_search_hit: "m (c # cs) = Some g \<Longrightarrow> re_search m (c # cs) = Some g"
  by simp

lemma re_search_miss: "m (c # cs) = None \<Longrightarrow> re_search m (c # cs) = re_search m cs"
  by simp

lemmas match_eval = isspace_def isdigit_def lower_char_def contract_char_def amount_char_def
  match_contract_def match_amount_def Let_def re_search_hit re_search_miss

lemma portal_texts:
  "portal_text ''https://portal/#/palmeira/portal/compras/contratoView/1'' = ''Dados do contrato Contrato 001/2024 Valor total R$ 1.000,00''"
  "portal_text ''https://portal/#/palmeira/portal/compras/contratoView/2'' = ''Contrato  002/2024  Valor total R$ 2.500,50''"
  "portal_text ''https://portal/#/palmeira/portal/compras/contratoView/3'' = ''Contrato 003/2024''"
  "portal_text ''https://portal/#/palmeira/portal/compras/contratoView/4'' = ''Contrato 004/2024 Valor total R$ 40,00''"
  by (simp_all add: portal_text_def)

lemma portal_splits:
  "split_ws ''Dados do contrato Contrato 001/2024 Valor total R$ 1.000,00'' = [''Dados'', ''do'', ''contrato'', ''Contrato'', ''001/2024'', ''Valor'', ''total'', ''R$'', ''1.000,00'']"
  "split_ws ''Contrato  002/2024  Valor total R$ 2.500,50'' = [''Contrato'', ''002/2024'', ''Valor'', ''total'', ''R$'', ''2.500,50'']"
  "split_ws ''Contrato 003/2024'' = [''Contrato'', ''003/2024'']"
  "split_ws ''Contrato 004/2024 Valor total R$ 40,00'' = [''Contrato'', ''004/2024'', ''Valor'', ''total'', ''R$'', ''40,00'']"
  by (simp_all add: split_ws.simps isspace_def Let_def)

lemma portal_extracts:
  "extract_text (portal_text ''https://portal/#/palmeira/portal/compras/contratoView/1'')
     = \<lparr>contract = Some ''001/2024'', amount = Some ''1.000,00''\<rparr>"
  "extract_text (portal_text ''https://portal/#/palmeira/portal/compras/contratoView/2'')
     = \<lparr>contract = Some ''002/2024'', amount = Some ''2.500,50''\<rparr>"
  "extract_text (portal_text ''https://portal/#/palmeira/portal/compras/contratoView/3'')
     = \<lparr>contract = Some ''003/2024'', amount = None\<rparr>"
  "extract_text (portal_text ''https://portal/#/palmeira/portal/compras/contratoView/4'')
     = \<lparr>contract = Some ''004/2024'', amount = Some ''40,00''\<rparr>"
  unfolding portal_texts extract_text_def portal_splits
  by (simp_all add: match_eval del: re_search.simps(2))

lemma portal_fetch:
  "open_details_and_extract portal (CHR ''#'' # rest) \<lparr>world = (p, u), trace = tr\<rparr> =
     (Inr (extract_text (portal_text (''https://portal/#'' @ rest))),
      \<lparr>world = (p, ''https://portal/#'' @ rest), trace = tr @ [Fetch (CHR ''#'' # rest)]\<rparr>)"
  by (simp add: open_details_and_extract_def detail_body_def pick_ctx_def
        extract_from_context_def fallback_tier_def make_abs_url_def portal_calls Let_def)

lemma portal_process_row:
  "process_row portal idx (CHR ''#'' # rest) row_text stash visited \<lparr>world = (p, u), trace = tr\<rparr> =
     (let details = extract_text (portal_text (''https://portal/#'' @ rest));
          st1 = \<lparr>world = (p, ''https://portal/#'' @ rest),
                 trace = tr @ [Log (ClickingRow idx row_text), Fetch (CHR ''#'' # rest)]\<rparr>
      in if complete details
         then (Inr (), stash @ [details], insert (CHR ''#'' # rest) visited,
               emit (Log (Extracted details)) st1)
         else (Inr (), stash, insert (CHR ''#'' # rest) visited,
               emit (Log (FailedToExtract (CHR ''#'' # rest))) st1))"
proof -
  have "open_details_and_extract portal (CHR ''#'' # rest)
          (emit (Log (ClickingRow idx row_text)) \<lparr>world = (p, u), trace = tr\<rparr>) =
     (Inr (extract_text (portal_text (''https://portal/#'' @ rest))),
      \<lparr>world = (p, ''https://portal/#'' @ rest),
       trace = tr @ [Log (ClickingRow idx row_text), Fetch (CHR ''#'' # rest)]\<rparr>)"
    by (simp add: portal_calls(25) portal_fetch)
  from process_row_cases [OF this] show ?thesis by (simp add: Let_def)
qed

theorem process_row_stash_witness:
  "process_row portal 3 ''#/palmeira/portal/compras/contratoView/3'' ''003/2024 Frota''
       [\<lparr>contract = Some ''001/2024'', amount = Some ''1.000,00''\<rparr>] {} portal_start
     = (Inr (), [\<lparr>contract = Some ''001/2024'', amount = Some ''1.000,00''\<rparr>],
        {''#/palmeira/portal/compras/contratoView/3''},
        \<lparr>world = (0, ''https://portal/#/palmeira/portal/compras/contratoView/3''),
         trace = [Log (ClickingRow 3 ''003/2024 Frota''),
                  Fetch ''#/palmeira/portal/compras/contratoView/3'',
                  Log (FailedToExtract ''#/palmeira/portal/compras/contratoView/3'')]\<rparr>)
   \<and> open_details_and_extract portal ''#/palmeira/portal/compras/contratoView/3''
         (emit (Log (ClickingRow 3 ''003/2024 Frota'')) portal_start)
     = (Inr \<lparr>contract = Some ''003/2024'', amount = None\<rparr>,
        \<lparr>world = (0, ''https://portal/#/palmeira/portal/compras/contratoView/3''),
         trace = [Log (ClickingRow 3 ''003/2024 Frota''),
                  Fetch ''#/palmeira/portal/compras/contratoView/3'']\<rparr>)"
proof -
  have o: "open_details_and_extract portal ''#/palmeira/portal/compras/contratoView/3''
         (emit (Log (ClickingRow 3 ''003/2024 Frota'')) portal_start)
     = (Inr \<lparr>contract = Some ''003/2024'', amount = None\<rparr>,
        \<lparr>world = (0, ''https://portal/#/palmeira/portal/compras/contratoView/3''),
         trace = [Log (ClickingRow 3 ''003/2024 Frota''),
                  Fetch ''#/palmeira/portal/compras/contratoView/3'']\<rparr>)"
    by (simp add: portal_start_def portal_calls(25) portal_fetch portal_extracts)
  have p: "process_row portal 3 ''#/palmeira/portal/compras/contratoView/3'' ''003/2024 Frota''
       [\<lparr>contract = Some ''001/2024'', amount = Some ''1.000,00''\<rparr>] {} portal_start
     = (Inr (), [\<lparr>contract = Some ''001/2024'', amount = Some ''1.000,00''\<rparr>],
        {''#/palmeira/portal/compras/contratoView/3''},
        \<lparr>world = (0, ''https://portal/#/palmeira/portal/compras/contratoView/3''),
         trace = [Log (ClickingRow 3 ''003/2024 Frota''),
                  Fetch ''#/palmeira/portal/compras/contratoView/3'',
                  Log (FailedToExtract ''#/palmeira/portal/compras/contratoView/3'')]\<rparr>)"
    by (simp add: portal_start_def portal_process_row portal_extracts complete_def
          portal_calls(25))
  from process_row_stash [OF p o] show ?thesis using p o by simp
qed

end
